theory Spec2Isabelle
  imports Main "HOL-Library.Monad_Syntax"
begin

section \<open>Reactive runtime: the signal graph of runtime/signal.ts\<close>

text \<open>
  Signal nodes and effects are heap objects of the JavaScript program; here they live in
  two stores indexed by numbers. The module-level variables \<open>currentEffect\<close>,
  \<open>effectStack\<close>, \<open>batchDepth\<close> and \<open>pendingEffects\<close> are fields of the
  runtime state. The field \<open>invocations\<close> is an observer added by the model: it lists,
  in order, the effects whose closure \<open>fn\<close> was called.

  Values: \<open>Object.is\<close> is an equivalence on JavaScript values; on the values below
  (undefined, integers, NaN) it is HOL equality.
\<close>

type_synonym sigid = nat
type_synonym effid = nat

datatype val = Undefined | Num int | NaN

text \<open>JavaScript \<open>+\<close> on these values: anything but two numbers gives NaN.\<close>

fun js_add :: "val \<Rightarrow> val \<Rightarrow> val" where
  "js_add (Num a) (Num b) = Num (a + b)"
| "js_add _ _ = NaN"

text \<open>
  Closures handed to the runtime are programs over the runtime's own interface:
  an expression reads signals (\<open>s()\<close> is \<open>Get\<close>, \<open>s.peek()\<close> is \<open>Peek\<close>), a
  command evaluates an expression, writes a signal (\<open>s.set(e)\<close>), or runs a block
  under \<open>batch\<close> or \<open>untrack\<close>.
\<close>

datatype expr = Const val | Get sigid | Peek sigid | Add expr expr

datatype cmd = Eval expr | Set sigid expr | Batch "cmd list" | Untrack "cmd list"

text \<open>
  A JavaScript \<open>Set\<close> keeps its entries in insertion order; \<open>delete\<close> empties the
  entry in place, \<open>add\<close> of a value that is not in the set appends a new entry, and
  \<open>forEach\<close> walks the entry list by index, re-reading its length after every
  callback (ECMAScript, Set.prototype.forEach). The subscriber set of a signal is walked
  while effects unsubscribe and subscribe again, so it is modelled with its entry list:
  \<open>None\<close> is an emptied entry. The sets \<open>dependencies\<close> and \<open>pendingEffects\<close> are
  never changed while they are walked; they are lists without repetition, in insertion
  order.
\<close>

type_synonym 'a jsset = "'a option list"

definition jsset_add :: "'a \<Rightarrow> 'a jsset \<Rightarrow> 'a jsset" where
  "jsset_add x es = (if Some x \<in> set es then es else es @ [Some x])"

definition jsset_delete :: "'a \<Rightarrow> 'a jsset \<Rightarrow> 'a jsset" where
  "jsset_delete x es = map (\<lambda>e. if e = Some x then None else e) es"

definition list_add :: "'a \<Rightarrow> 'a list \<Rightarrow> 'a list" where
  "list_add x xs = (if x \<in> set xs then xs else xs @ [x])"

record signalNode =
  sn_value :: val
  subscribers :: "effid jsset"

text \<open>
  An effect: \<open>fn\<close> is the closure's body and \<open>fn_result\<close> what the closure returns
  when it returns a function (the next cleanup).
\<close>

record effect =
  fn :: "cmd list"
  fn_result :: "cmd list option"
  dependencies :: "sigid list"
  cleanup :: "cmd list option"
  isRunning :: bool

record runtime =
  signals :: "sigid \<Rightarrow> signalNode"
  effects :: "effid \<Rightarrow> effect"
  nextSignal :: nat
  nextEffect :: nat
  currentEffect :: "effid option"
  effectStack :: "effid list"
  batchDepth :: nat
  pendingEffects :: "effid list"
  invocations :: "effid list"

definition new_SignalNode :: "val \<Rightarrow> signalNode" where
  "new_SignalNode v = \<lparr>sn_value = v, subscribers = []\<rparr>"

definition new_Effect :: "cmd list \<Rightarrow> cmd list option \<Rightarrow> effect" where
  "new_Effect body res =
     \<lparr>fn = body, fn_result = res, dependencies = [], cleanup = None, isRunning = False\<rparr>"

definition initial_runtime :: runtime where
  "initial_runtime =
     \<lparr>signals = (\<lambda>_. new_SignalNode Undefined), effects = (\<lambda>_. new_Effect [] None),
      nextSignal = 0, nextEffect = 0, currentEffect = None, effectStack = [],
      batchDepth = 0, pendingEffects = [], invocations = []\<rparr>"

definition upd_signal :: "sigid \<Rightarrow> (signalNode \<Rightarrow> signalNode) \<Rightarrow> runtime \<Rightarrow> runtime" where
  "upd_signal s f st = st\<lparr>signals := (signals st)(s := f (signals st s))\<rparr>"

definition upd_effect :: "effid \<Rightarrow> (effect \<Rightarrow> effect) \<Rightarrow> runtime \<Rightarrow> runtime" where
  "upd_effect e f st = st\<lparr>effects := (effects st)(e := f (effects st e))\<rparr>"

text \<open>SignalNode.get: subscribe the current effect, if any, and return the value.\<close>

definition SignalNode_get :: "sigid \<Rightarrow> runtime \<Rightarrow> val \<times> runtime" where
  "SignalNode_get s st =
     (case currentEffect st of
        None \<Rightarrow> (sn_value (signals st s), st)
      | Some e \<Rightarrow>
          (sn_value (signals st s),
           upd_effect e (\<lambda>ef. ef\<lparr>dependencies := list_add s (dependencies ef)\<rparr>)
             (upd_signal s (\<lambda>sn. sn\<lparr>subscribers := jsset_add e (subscribers sn)\<rparr>) st)))"

definition SignalNode_peek :: "sigid \<Rightarrow> runtime \<Rightarrow> val" where
  "SignalNode_peek s st = sn_value (signals st s)"

definition SignalNode_unsubscribe :: "sigid \<Rightarrow> effid \<Rightarrow> runtime \<Rightarrow> runtime" where
  "SignalNode_unsubscribe s e st =
     upd_signal s (\<lambda>sn. sn\<lparr>subscribers := jsset_delete e (subscribers sn)\<rparr>) st"

fun eval :: "expr \<Rightarrow> runtime \<Rightarrow> val \<times> runtime" where
  "eval (Const v) st = (v, st)"
| "eval (Get s) st = SignalNode_get s st"
| "eval (Peek s) st = (SignalNode_peek s st, st)"
| "eval (Add a b) st =
     (case eval a st of (x, st1) \<Rightarrow>
        (case eval b st1 of (y, st2) \<Rightarrow> (js_add x y, st2)))"

text \<open>
  The part of Effect.execute and Effect.dispose that tears the dependency edges down:
  \<open>this.dependencies.forEach(dep => dep.unsubscribe(this)); this.dependencies.clear()\<close>.
\<close>

definition teardown :: "effid \<Rightarrow> runtime \<Rightarrow> runtime" where
  "teardown e st =
     upd_effect e (\<lambda>ef. ef\<lparr>dependencies := []\<rparr>)
       (fold (\<lambda>s. SignalNode_unsubscribe s e) (dependencies (effects st e)) st)"

text \<open>
  The functions that can run closures call one another: an effect's closure can write a
  signal, which runs effects. They take fuel, and \<open>None\<close> is a run that has not
  returned within the fuel; every call, a loop step included, costs one unit. The
  recursion is tied in \<open>run\<close>, by primitive recursion on the fuel: each function
  below is written against \<open>call\<close>, the same functions with one unit less.
\<close>

datatype call =
    Exec "cmd list"
  | Exec_cmd cmd
  | Set_signal sigid val
  | ForEach_subscribers sigid nat
  | Execute effid
  | ForEach_effects "effid list"
  | Batch_block "cmd list"
  | Untrack_block "cmd list"

type_synonym callee = "call \<Rightarrow> runtime \<Rightarrow> runtime option"

text \<open>A closure body: its commands in order.\<close>

definition exec_body :: "callee \<Rightarrow> cmd list \<Rightarrow> runtime \<Rightarrow> runtime option" where
  "exec_body call cs st =
     (case cs of
        [] \<Rightarrow> Some st
      | c # cs' \<Rightarrow>
          (case call (Exec_cmd c) st of None \<Rightarrow> None | Some st1 \<Rightarrow> call (Exec cs') st1))"

definition exec_cmd_body :: "callee \<Rightarrow> cmd \<Rightarrow> runtime \<Rightarrow> runtime option" where
  "exec_cmd_body call c st =
     (case c of
        Eval e \<Rightarrow> Some (snd (eval e st))
      | Set s e \<Rightarrow> (case eval e st of (v, st1) \<Rightarrow> call (Set_signal s v) st1)
      | Batch cs \<Rightarrow> call (Batch_block cs) st
      | Untrack cs \<Rightarrow> call (Untrack_block cs) st)"

text \<open>SignalNode.set with SignalNode.notify inlined.\<close>

definition set_body :: "callee \<Rightarrow> sigid \<Rightarrow> val \<Rightarrow> runtime \<Rightarrow> runtime option" where
  "set_body call s v st =
     (if sn_value (signals st s) = v then Some st
      else
        (let st1 = upd_signal s (\<lambda>sn. sn\<lparr>sn_value := v\<rparr>) st in
         if batchDepth st1 > 0 then
           Some (st1\<lparr>pendingEffects :=
                   fold list_add (List.map_filter id (subscribers (signals st1 s)))
                     (pendingEffects st1)\<rparr>)
         else call (ForEach_subscribers s 0) st1))"

text \<open>
  \<open>this.subscribers.forEach(effect => effect.execute())\<close> from entry \<open>i\<close> on: the
  entry list is read again at every step.
\<close>

definition forEach_subscribers_body :: "callee \<Rightarrow> sigid \<Rightarrow> nat \<Rightarrow> runtime \<Rightarrow> runtime option" where
  "forEach_subscribers_body call s i st =
     (if i < length (subscribers (signals st s)) then
        (case subscribers (signals st s) ! i of
           None \<Rightarrow> call (ForEach_subscribers s (i + 1)) st
         | Some e \<Rightarrow>
             (case call (Execute e) st of
                None \<Rightarrow> None
              | Some st1 \<Rightarrow> call (ForEach_subscribers s (i + 1)) st1))
      else Some st)"

text \<open>Effect.execute, in two halves around the call of the closure.\<close>

definition execute_enter :: "effid \<Rightarrow> runtime \<Rightarrow> runtime" where
  "execute_enter e st =
     (let st2 = upd_effect e (\<lambda>ef. ef\<lparr>cleanup := None\<rparr>) st;
          st3 = teardown e st2;
          st4 = st3\<lparr>currentEffect := Some e, effectStack := effectStack st3 @ [e]\<rparr>;
          st5 = upd_effect e (\<lambda>ef. ef\<lparr>isRunning := True\<rparr>) st4
      in st5\<lparr>invocations := invocations st5 @ [e]\<rparr>)"

definition execute_leave :: "effid \<Rightarrow> effid option \<Rightarrow> runtime \<Rightarrow> runtime" where
  "execute_leave e prevEffect st =
     (let st8 = (case fn_result (effects st e) of
                   None \<Rightarrow> st
                 | Some cl \<Rightarrow> upd_effect e (\<lambda>ef. ef\<lparr>cleanup := Some cl\<rparr>) st);
          st9 = upd_effect e (\<lambda>ef. ef\<lparr>isRunning := False\<rparr>) st8
      in st9\<lparr>effectStack := butlast (effectStack st9), currentEffect := prevEffect\<rparr>)"

definition execute_body :: "callee \<Rightarrow> effid \<Rightarrow> runtime \<Rightarrow> runtime option" where
  "execute_body call e st =
     (if isRunning (effects st e) then Some st
      else
        (case (case cleanup (effects st e) of
                 None \<Rightarrow> Some st
               | Some cl \<Rightarrow> call (Exec cl) st) of
           None \<Rightarrow> None
         | Some st1 \<Rightarrow>
             (case call (Exec (fn (effects st1 e))) (execute_enter e st1) of
                None \<Rightarrow> None
              | Some st7 \<Rightarrow> Some (execute_leave e (currentEffect st1) st7))))"

text \<open>\<open>effects.forEach(effect => effect.execute())\<close> over the array copy of batch.\<close>

definition forEach_effects_body :: "callee \<Rightarrow> effid list \<Rightarrow> runtime \<Rightarrow> runtime option" where
  "forEach_effects_body call es st =
     (case es of
        [] \<Rightarrow> Some st
      | e # es' \<Rightarrow>
          (case call (Execute e) st of
             None \<Rightarrow> None
           | Some st1 \<Rightarrow> call (ForEach_effects es') st1))"

definition batch_body :: "callee \<Rightarrow> cmd list \<Rightarrow> runtime \<Rightarrow> runtime option" where
  "batch_body call cs st =
     (case call (Exec cs) (st\<lparr>batchDepth := batchDepth st + 1\<rparr>) of
        None \<Rightarrow> None
      | Some st1 \<Rightarrow>
          (let st2 = st1\<lparr>batchDepth := batchDepth st1 - 1\<rparr> in
           if batchDepth st2 = 0 then
             call (ForEach_effects (pendingEffects st2)) (st2\<lparr>pendingEffects := []\<rparr>)
           else Some st2))"

definition untrack_body :: "callee \<Rightarrow> cmd list \<Rightarrow> runtime \<Rightarrow> runtime option" where
  "untrack_body call cs st =
     (let prevEffect = currentEffect st in
      case call (Exec cs) (st\<lparr>currentEffect := None\<rparr>) of
        None \<Rightarrow> None
      | Some st1 \<Rightarrow> Some (st1\<lparr>currentEffect := prevEffect\<rparr>))"

primrec run :: "nat \<Rightarrow> call \<Rightarrow> runtime \<Rightarrow> runtime option" where
  "run 0 c st = None"
| "run (Suc n) c st =
     (case c of
        Exec cs \<Rightarrow> exec_body (run n) cs st
      | Exec_cmd c' \<Rightarrow> exec_cmd_body (run n) c' st
      | Set_signal s v \<Rightarrow> set_body (run n) s v st
      | ForEach_subscribers s i \<Rightarrow> forEach_subscribers_body (run n) s i st
      | Execute e \<Rightarrow> execute_body (run n) e st
      | ForEach_effects es \<Rightarrow> forEach_effects_body (run n) es st
      | Batch_block cs \<Rightarrow> batch_body (run n) cs st
      | Untrack_block cs \<Rightarrow> untrack_body (run n) cs st)"

text \<open>The functions of the module, by their names.\<close>

definition exec :: "nat \<Rightarrow> cmd list \<Rightarrow> runtime \<Rightarrow> runtime option" where
  "exec n cs = run n (Exec cs)"

definition SignalNode_set :: "nat \<Rightarrow> sigid \<Rightarrow> val \<Rightarrow> runtime \<Rightarrow> runtime option" where
  "SignalNode_set n s v = run n (Set_signal s v)"

definition Effect_execute :: "nat \<Rightarrow> effid \<Rightarrow> runtime \<Rightarrow> runtime option" where
  "Effect_execute n e = run n (Execute e)"

definition batch :: "nat \<Rightarrow> cmd list \<Rightarrow> runtime \<Rightarrow> runtime option" where
  "batch n cs = run n (Batch_block cs)"

definition untrack :: "nat \<Rightarrow> cmd list \<Rightarrow> runtime \<Rightarrow> runtime option" where
  "untrack n cs = run n (Untrack_block cs)"

text \<open>
  createSignal allocates a node. createEffect allocates an effect and executes it at
  once; the disposer it returns is \<open>Effect_dispose\<close> of the new effect. createComputed
  allocates the backing signal with the placeholder \<open>undefined\<close> and an effect whose
  closure is \<open>setSignal(fn())\<close>, executes it, and returns the backing signal: reading
  the computed is reading that signal. The closure \<open>fn\<close> is any closure of the language
  above that returns a value, \<open>() => { body; return result }\<close>: the commands of \<open>body\<close>
  and then the expression \<open>result\<close>, so \<open>setSignal(fn())\<close> is \<open>body\<close> followed by
  the write of \<open>result\<close> to the backing signal.
\<close>

definition createSignal :: "val \<Rightarrow> runtime \<Rightarrow> sigid \<times> runtime" where
  "createSignal v st =
     (nextSignal st,
      st\<lparr>signals := (signals st)(nextSignal st := new_SignalNode v),
         nextSignal := nextSignal st + 1\<rparr>)"

definition alloc_Effect :: "cmd list \<Rightarrow> cmd list option \<Rightarrow> runtime \<Rightarrow> effid \<times> runtime" where
  "alloc_Effect body res st =
     (nextEffect st,
      st\<lparr>effects := (effects st)(nextEffect st := new_Effect body res),
         nextEffect := nextEffect st + 1\<rparr>)"

definition createEffect :: "nat \<Rightarrow> cmd list \<Rightarrow> cmd list option \<Rightarrow> runtime \<Rightarrow> (effid \<times> runtime) option" where
  "createEffect n body res st =
     (case alloc_Effect body res st of (e, st1) \<Rightarrow>
        (case Effect_execute n e st1 of None \<Rightarrow> None | Some st2 \<Rightarrow> Some (e, st2)))"

definition createComputed ::
  "nat \<Rightarrow> cmd list \<Rightarrow> expr \<Rightarrow> runtime \<Rightarrow> (sigid \<times> runtime) option" where
  "createComputed n body result st =
     (case createSignal Undefined st of (sg, st1) \<Rightarrow>
        (case alloc_Effect (body @ [Set sg result]) None st1 of (e, st2) \<Rightarrow>
           (case Effect_execute n e st2 of None \<Rightarrow> None | Some st3 \<Rightarrow> Some (sg, st3))))"

definition Effect_dispose :: "nat \<Rightarrow> effid \<Rightarrow> runtime \<Rightarrow> runtime option" where
  "Effect_dispose n e st =
     (case (case cleanup (effects st e) of None \<Rightarrow> Some st | Some cl \<Rightarrow> exec n cl st) of
        None \<Rightarrow> None
      | Some st1 \<Rightarrow> Some (teardown e st1))"

subsection \<open>What a run leaves unchanged\<close>

text \<open>
  Evaluating an expression only adds subscription edges: \<open>same_control\<close> lists what it
  leaves as it was.
\<close>

definition same_control :: "runtime \<Rightarrow> runtime \<Rightarrow> bool" where
  "same_control st st' \<longleftrightarrow>
     batchDepth st' = batchDepth st \<and> invocations st' = invocations st \<and>
     currentEffect st' = currentEffect st \<and> pendingEffects st' = pendingEffects st \<and>
     effectStack st' = effectStack st \<and> nextSignal st' = nextSignal st \<and>
     nextEffect st' = nextEffect st \<and>
     (\<forall>s. sn_value (signals st' s) = sn_value (signals st s)) \<and>
     (\<forall>e. fn (effects st' e) = fn (effects st e) \<and>
          fn_result (effects st' e) = fn_result (effects st e) \<and>
          cleanup (effects st' e) = cleanup (effects st e) \<and>
          isRunning (effects st' e) = isRunning (effects st e))"

lemma same_control_refl: "same_control st st"
  by (simp add: same_control_def)

lemma same_control_trans: "same_control a b \<Longrightarrow> same_control b c \<Longrightarrow> same_control a c"
  by (simp add: same_control_def)

lemma SignalNode_get_control: "same_control st (snd (SignalNode_get s st))"
  by (simp add: same_control_def SignalNode_get_def upd_effect_def upd_signal_def split: option.splits)

lemma eval_control: "same_control st (snd (eval e st))"
proof (induction e arbitrary: st)
  case (Add a b)
  have "same_control (snd (eval a st)) (snd (eval b (snd (eval a st))))"
    by (rule Add.IH)
  with Add.IH(1)[of st] show ?case
    by (auto simp: split_beta intro: same_control_trans)
qed (simp_all add: same_control_refl SignalNode_get_control)

lemma eval_batchDepth: "batchDepth (snd (eval e st)) = batchDepth st"
  and eval_invocations: "invocations (snd (eval e st)) = invocations st"
  and eval_isRunning: "isRunning (effects (snd (eval e st)) x) = isRunning (effects st x)"
  using eval_control[of st e] by (simp_all add: same_control_def)

lemma fold_unsubscribe_other:
  "batchDepth (fold (\<lambda>s. SignalNode_unsubscribe s e) ds st) = batchDepth st"
  "invocations (fold (\<lambda>s. SignalNode_unsubscribe s e) ds st) = invocations st"
  "effects (fold (\<lambda>s. SignalNode_unsubscribe s e) ds st) = effects st"
  "currentEffect (fold (\<lambda>s. SignalNode_unsubscribe s e) ds st) = currentEffect st"
  "pendingEffects (fold (\<lambda>s. SignalNode_unsubscribe s e) ds st) = pendingEffects st"
  by (induction ds arbitrary: st; simp add: SignalNode_unsubscribe_def upd_signal_def)+

lemma execute_enter_batchDepth: "batchDepth (execute_enter e st) = batchDepth st"
  by (simp add: execute_enter_def Let_def upd_effect_def teardown_def fold_unsubscribe_other)

lemma execute_leave_batchDepth: "batchDepth (execute_leave e p st) = batchDepth st"
  by (simp add: execute_leave_def Let_def upd_effect_def split: option.splits)

lemma run_batchDepth:
  "run n c st = Some st' \<Longrightarrow> batchDepth st' = batchDepth st"
proof (induction n arbitrary: c st st')
  case 0
  then show ?case by simp
next
  case (Suc n)
  show ?case
  proof (cases c)
    case (Exec cs)
    with Suc show ?thesis
      by (auto simp: exec_body_def split: list.splits option.splits)
  next
    case (Exec_cmd c')
    with Suc show ?thesis
      by (cases c') (auto simp: exec_cmd_body_def split_beta eval_batchDepth)
  next
    case (Set_signal s v)
    with Suc show ?thesis
      by (auto simp: set_body_def Let_def upd_signal_def split: if_splits)
  next
    case (ForEach_subscribers s i)
    with Suc show ?thesis
      by (auto simp: forEach_subscribers_body_def split: if_splits option.splits)
  next
    case (Execute e)
    with Suc show ?thesis
      by (auto simp: execute_body_def execute_enter_batchDepth execute_leave_batchDepth
             split: if_splits option.splits)
  next
    case (ForEach_effects es)
    with Suc show ?thesis
      by (auto simp: forEach_effects_body_def split: list.splits option.splits)
  next
    case (Batch_block cs)
    with Suc show ?thesis
      by (auto simp: batch_body_def Let_def split: option.splits if_splits)
  next
    case (Untrack_block cs)
    with Suc show ?thesis
      by (auto simp: untrack_body_def Let_def split: option.splits) 
  qed
qed

text \<open>
  The calls a closure body makes by itself; the two walks and \<open>Execute\<close> are made by
  the runtime on its behalf.
\<close>

definition user_call :: "call \<Rightarrow> bool" where
  "user_call c = (case c of Exec _ \<Rightarrow> True | Exec_cmd _ \<Rightarrow> True | Set_signal _ _ \<Rightarrow> True
     | Batch_block _ \<Rightarrow> True | Untrack_block _ \<Rightarrow> True | _ \<Rightarrow> False)"

lemma run_deferred:
  "run n c st = Some st' \<Longrightarrow> 0 < batchDepth st \<Longrightarrow> user_call c \<Longrightarrow>
   invocations st' = invocations st"
proof (induction n arbitrary: c st st')
  case 0
  then show ?case by simp
next
  case (Suc n)
  show ?case
  proof (cases c)
    case (Exec cs)
    show ?thesis
    proof (cases cs)
      case Nil
      with Suc.prems Exec show ?thesis by (simp add: exec_body_def)
    next
      case (Cons c' cs')
      with Suc.prems Exec obtain st1 where
        a: "run n (Exec_cmd c') st = Some st1" and b: "run n (Exec cs') st1 = Some st'"
        by (auto simp: exec_body_def split: option.splits)
      from a Suc.prems have "invocations st1 = invocations st"
        by (intro Suc.IH[OF a]) (simp_all add: user_call_def)
      moreover from run_batchDepth[OF a] Suc.prems have "0 < batchDepth st1" by simp
      then have "invocations st' = invocations st1"
        by (intro Suc.IH[OF b]) (simp_all add: user_call_def)
      ultimately show ?thesis by simp
    qed
  next
    case (Exec_cmd c')
    show ?thesis
    proof (cases c')
      case (Eval e)
      with Suc.prems Exec_cmd show ?thesis
        by (auto simp: exec_cmd_body_def eval_invocations)
    next
      case (Set s e)
      with Suc.prems Exec_cmd have a: "run n (Set_signal s (fst (eval e st))) (snd (eval e st)) = Some st'"
        by (simp add: exec_cmd_body_def split_beta)
      have "invocations st' = invocations (snd (eval e st))"
        using Suc.prems by (intro Suc.IH[OF a]) (simp_all add: user_call_def eval_batchDepth)
      then show ?thesis by (simp add: eval_invocations)
    next
      case (Batch cs)
      with Suc.prems Exec_cmd show ?thesis
        by (auto simp: exec_cmd_body_def user_call_def intro: Suc.IH)
    next
      case (Untrack cs)
      with Suc.prems Exec_cmd show ?thesis
        by (auto simp: exec_cmd_body_def user_call_def intro: Suc.IH)
    qed
  next
    case (Set_signal s v)
    with Suc.prems show ?thesis
      by (auto simp: set_body_def Let_def upd_signal_def split: if_splits)
  next
    case (Batch_block cs)
    with Suc.prems obtain st1 where
      a: "run n (Exec cs) (st\<lparr>batchDepth := batchDepth st + 1\<rparr>) = Some st1"
      and b: "st' = st1\<lparr>batchDepth := batchDepth st1 - 1\<rparr>"
      using run_batchDepth[of n "Exec cs" "st\<lparr>batchDepth := batchDepth st + 1\<rparr>"]
      by (auto simp: batch_body_def Let_def split: option.splits if_splits)
    have "invocations st1 = invocations (st\<lparr>batchDepth := batchDepth st + 1\<rparr>)"
      by (intro Suc.IH[OF a]) (simp_all add: user_call_def)
    with b show ?thesis by simp
  next
    case (Untrack_block cs)
    with Suc.prems obtain st1 where
      a: "run n (Exec cs) (st\<lparr>currentEffect := None\<rparr>) = Some st1"
      and b: "st' = st1\<lparr>currentEffect := currentEffect st\<rparr>"
      by (auto simp: untrack_body_def Let_def split: option.splits)
    have "invocations st1 = invocations (st\<lparr>currentEffect := None\<rparr>)"
      using Suc.prems by (intro Suc.IH[OF a]) (simp_all add: user_call_def)
    with b show ?thesis by simp
  qed (use Suc.prems in \<open>simp_all add: user_call_def\<close>)
qed

text \<open>
  \<open>held e st st'\<close>: from \<open>st\<close> to \<open>st'\<close> the effect \<open>e\<close> stayed in progress and its
  closure was not called.
\<close>

definition held :: "effid \<Rightarrow> runtime \<Rightarrow> runtime \<Rightarrow> bool" where
  "held e st st' \<longleftrightarrow> isRunning (effects st' e) \<and>
     count_list (invocations st') e = count_list (invocations st) e"

lemma held_refl: "isRunning (effects st e) \<Longrightarrow> held e st st"
  by (simp add: held_def)

lemma held_trans: "held e a b \<Longrightarrow> held e b c \<Longrightarrow> held e a c"
  by (simp add: held_def)

lemma execute_enter_other:
  "e' \<noteq> e \<Longrightarrow> isRunning (effects (execute_enter e' st) e) = isRunning (effects st e)"
  "e' \<noteq> e \<Longrightarrow> count_list (invocations (execute_enter e' st)) e = count_list (invocations st) e"
  by (simp_all add: execute_enter_def Let_def upd_effect_def teardown_def fold_unsubscribe_other)

lemma execute_leave_other:
  "e' \<noteq> e \<Longrightarrow> isRunning (effects (execute_leave e' p st) e) = isRunning (effects st e)"
  "count_list (invocations (execute_leave e' p st)) e = count_list (invocations st) e"
  by (simp_all add: execute_leave_def Let_def upd_effect_def split: option.splits)

lemma run_running:
  "run n c st = Some st' \<Longrightarrow> isRunning (effects st e) \<Longrightarrow> held e st st'"
proof (induction n arbitrary: c st st')
  case 0
  then show ?case by simp
next
  case (Suc n)
  show ?case
  proof (cases c)
    case (Exec cs)
    with Suc show ?thesis
      by (auto simp: exec_body_def held_refl split: list.splits option.splits)
         (metis held_def held_trans)
  next
    case (Exec_cmd c')
    show ?thesis
    proof (cases c')
      case (Eval x)
      with Suc.prems Exec_cmd show ?thesis
        by (auto simp: exec_cmd_body_def held_def eval_invocations eval_isRunning)
    next
      case (Set s x)
      with Suc.prems Exec_cmd have a: "run n (Set_signal s (fst (eval x st))) (snd (eval x st)) = Some st'"
        by (simp add: exec_cmd_body_def split_beta)
      have "held e (snd (eval x st)) st'"
        using Suc.prems by (intro Suc.IH[OF a]) (simp add: eval_isRunning)
      then show ?thesis by (simp add: held_def eval_invocations)
    next
      case (Batch cs)
      with Suc Exec_cmd show ?thesis by (auto simp: exec_cmd_body_def)
    next
      case (Untrack cs)
      with Suc Exec_cmd show ?thesis by (auto simp: exec_cmd_body_def)
    qed
  next
    case (Set_signal s v)
    show ?thesis
    proof (cases "sn_value (signals st s) = v")
      case True
      with Suc.prems Set_signal show ?thesis by (simp add: set_body_def held_refl)
    next
      case False
      let ?st1 = "upd_signal s (\<lambda>sn. sn\<lparr>sn_value := v\<rparr>) st"
      show ?thesis
      proof (cases "0 < batchDepth st")
        case True
        with False Suc.prems Set_signal show ?thesis
          by (auto simp: set_body_def Let_def upd_signal_def held_def)
      next
        case b: False
        with False Suc.prems Set_signal have a: "run n (ForEach_subscribers s 0) ?st1 = Some st'"
          by (simp add: set_body_def Let_def upd_signal_def)
        have "held e ?st1 st'"
          using Suc.prems by (intro Suc.IH[OF a]) (simp add: upd_signal_def)
        then show ?thesis by (simp add: held_def upd_signal_def)
      qed
    qed
  next
    case (ForEach_subscribers s i)
    with Suc show ?thesis
      by (auto simp: forEach_subscribers_body_def held_refl split: if_splits option.splits)
         (metis held_def held_trans)
  next
    case (Execute e')
    show ?thesis
    proof (cases "isRunning (effects st e')")
      case True
      with Suc.prems Execute show ?thesis by (simp add: execute_body_def held_refl)
    next
      case False
      with Suc.prems have ne: "e' \<noteq> e" by auto
      from False Suc.prems Execute obtain st1 st7 where
        a: "(case cleanup (effects st e') of None \<Rightarrow> Some st | Some cl \<Rightarrow> run n (Exec cl) st) = Some st1"
        and b: "run n (Exec (fn (effects st1 e'))) (execute_enter e' st1) = Some st7"
        and c: "st' = execute_leave e' (currentEffect st1) st7"
        by (auto simp: execute_body_def split: option.splits)
      from a Suc.prems have h1: "held e st st1"
        by (auto split: option.splits simp: held_refl intro: Suc.IH)
      then have "isRunning (effects (execute_enter e' st1) e)"
        using ne by (simp add: execute_enter_other held_def)
      from Suc.IH[OF b this] have h2: "held e (execute_enter e' st1) st7" .
      from h1 h2 ne show ?thesis
        unfolding c by (simp add: held_def execute_enter_other execute_leave_other)
    qed
  next
    case (ForEach_effects es)
    with Suc show ?thesis
      by (auto simp: forEach_effects_body_def held_refl split: list.splits option.splits)
         (metis held_def held_trans)
  next
    case (Batch_block cs)
    with Suc.prems obtain st1 where
      a: "run n (Exec cs) (st\<lparr>batchDepth := batchDepth st + 1\<rparr>) = Some st1"
      and b: "(let st2 = st1\<lparr>batchDepth := batchDepth st1 - 1\<rparr> in
           if batchDepth st2 = 0 then
             run n (ForEach_effects (pendingEffects st2)) (st2\<lparr>pendingEffects := []\<rparr>)
           else Some st2) = Some st'"
      by (auto simp: batch_body_def split: option.splits)
    have h1: "held e (st\<lparr>batchDepth := batchDepth st + 1\<rparr>) st1"
      using Suc.prems by (intro Suc.IH[OF a]) simp
    show ?thesis
    proof (cases "batchDepth st1 - 1 = 0")
      case True
      with b have c: "run n (ForEach_effects (pendingEffects st1))
          (st1\<lparr>batchDepth := batchDepth st1 - 1, pendingEffects := []\<rparr>) = Some st'"
        by (simp add: Let_def)
      have "held e (st1\<lparr>batchDepth := batchDepth st1 - 1, pendingEffects := []\<rparr>) st'"
        using h1 by (intro Suc.IH[OF c]) (simp add: held_def)
      with h1 show ?thesis by (simp add: held_def)
    next
      case False
      with b h1 show ?thesis by (auto simp: Let_def held_def)
    qed
  next
    case (Untrack_block cs)
    with Suc.prems obtain st1 where
      a: "run n (Exec cs) (st\<lparr>currentEffect := None\<rparr>) = Some st1"
      and b: "st' = st1\<lparr>currentEffect := currentEffect st\<rparr>"
      by (auto simp: untrack_body_def Let_def split: option.splits)
    have "held e (st\<lparr>currentEffect := None\<rparr>) st1"
      using Suc.prems by (intro Suc.IH[OF a]) simp
    with b show ?thesis by (simp add: held_def)
  qed
qed

subsection \<open>An effect that reads the signal it is notified by\<close>

text \<open>
  \<open>resubscribing s e k st\<close>: the subscriber entries of \<open>s\<close> are \<open>k\<close> emptied entries and
  then \<open>e\<close>, whose closure is \<open>() => { s() }\<close>.
\<close>

definition resubscribing :: "sigid \<Rightarrow> effid \<Rightarrow> nat \<Rightarrow> runtime \<Rightarrow> bool" where
  "resubscribing s e k st \<longleftrightarrow>
     subscribers (signals st s) = replicate k None @ [Some e] \<and>
     dependencies (effects st e) = [s] \<and>
     fn (effects st e) = [Eval (Get s)] \<and>
     fn_result (effects st e) = None \<and>
     cleanup (effects st e) = None \<and>
     \<not> isRunning (effects st e)"

lemma jsset_delete_tail:
  "jsset_delete e (replicate k None @ [Some e]) = replicate (Suc k) None"
  by (simp add: jsset_delete_def replicate_append_same)

lemma jsset_add_fresh:
  "Some e \<notin> set es \<Longrightarrow> jsset_add e es = es @ [Some e]"
  by (simp add: jsset_add_def)

lemma run_SomeD: "run n c st = Some st' \<Longrightarrow> \<exists>m. n = Suc m"
  by (cases n) simp_all

lemma execute_resubscribing:
  assumes "resubscribing s e k st" and "run n (Execute e) st = Some st'"
  shows "resubscribing s e (Suc k) st'"
proof -
  from assms(2) obtain m where n: "n = Suc m" by (auto dest: run_SomeD)
  with assms obtain st7 where
    b: "run m (Exec [Eval (Get s)]) (execute_enter e st) = Some st7"
    and c: "st' = execute_leave e (currentEffect st) st7"
    by (auto simp: execute_body_def resubscribing_def split: option.splits)
  from b obtain m1 where m: "m = Suc m1" by (auto dest: run_SomeD)
  with b obtain st6 where
    d: "run m1 (Exec_cmd (Eval (Get s))) (execute_enter e st) = Some st6"
    and e: "run m1 (Exec []) st6 = Some st7"
    by (auto simp: exec_body_def split: option.splits)
  from d obtain m2 where m1: "m1 = Suc m2" by (auto dest: run_SomeD)
  with d e have st7: "st7 = snd (SignalNode_get s (execute_enter e st))"
    by (auto simp: exec_body_def exec_cmd_body_def)
  show ?thesis
    using assms(1) unfolding c st7
    by (simp add: resubscribing_def execute_leave_def execute_enter_def Let_def teardown_def
        SignalNode_get_def SignalNode_unsubscribe_def upd_effect_def upd_signal_def
        jsset_delete_tail jsset_add_fresh list_add_def)
qed

lemma forEach_resubscribing_diverges:
  "resubscribing s e k st \<Longrightarrow> run n (ForEach_subscribers s k) st = None"
proof (induction n arbitrary: k st)
  case 0
  then show ?case by simp
next
  case (Suc n)
  from Suc.prems have len: "k < length (subscribers (signals st s))"
    and at: "subscribers (signals st s) ! k = Some e"
    by (simp_all add: resubscribing_def nth_append)
  show ?case
  proof (cases "run n (Execute e) st")
    case None
    with len at show ?thesis by (simp add: forEach_subscribers_body_def)
  next
    case (Some st1)
    from execute_resubscribing[OF Suc.prems Some] have "resubscribing s e (Suc k) st1" .
    from Suc.IH[OF this] Some len at show ?thesis
      by (simp add: forEach_subscribers_body_def)
  qed
qed

lemma set_resubscribing_diverges:
  assumes "resubscribing s e 0 st" and "sn_value (signals st s) \<noteq> v" and "batchDepth st = 0"
  shows "SignalNode_set n s v st = None"
proof (cases n)
  case 0
  then show ?thesis by (simp add: SignalNode_set_def)
next
  case (Suc m)
  have "resubscribing s e 0 (upd_signal s (\<lambda>sn. sn\<lparr>sn_value := v\<rparr>) st)"
    using assms(1) by (simp add: resubscribing_def upd_signal_def)
  from forEach_resubscribing_diverges[OF this] Suc assms(2,3) show ?thesis
    by (simp add: SignalNode_set_def set_body_def Let_def upd_signal_def)
qed

lemma set_same_value:
  "sn_value (signals st s) = v \<Longrightarrow> SignalNode_set (Suc n) s v st = Some st"
  by (simp add: SignalNode_set_def set_body_def)

subsection \<open>Computed values\<close>

text \<open>The value of an expression over given signal values, with no runtime.\<close>

fun expr_value :: "expr \<Rightarrow> (sigid \<Rightarrow> val) \<Rightarrow> val" where
  "expr_value (Const v) \<sigma> = v"
| "expr_value (Get s) \<sigma> = \<sigma> s"
| "expr_value (Peek s) \<sigma> = \<sigma> s"
| "expr_value (Add a b) \<sigma> = js_add (expr_value a \<sigma>) (expr_value b \<sigma>)"

definition signal_values :: "runtime \<Rightarrow> sigid \<Rightarrow> val" where
  "signal_values st = (\<lambda>s. sn_value (signals st s))"

lemma eval_values: "signal_values (snd (eval f st)) = signal_values st"
  using eval_control[of st f] by (auto simp: same_control_def signal_values_def)

lemma eval_value: "fst (eval f st) = expr_value f (signal_values st)"
proof (induction f arbitrary: st)
  case (Add a b)
  then show ?case by (simp add: split_beta eval_values)
qed (simp_all add: SignalNode_get_def SignalNode_peek_def signal_values_def split: option.splits)

lemma jsset_add_idem: "jsset_add e (jsset_add e xs) = jsset_add e xs"
  by (simp add: jsset_add_def)

lemma eval_currentEffect: "currentEffect (snd (eval f st)) = currentEffect st"
  using eval_control[of st f] by (simp add: same_control_def)

lemma eval_subscribers:
  "currentEffect st = Some e \<Longrightarrow>
   subscribers (signals (snd (eval f st)) s) = subscribers (signals st s) \<or>
   subscribers (signals (snd (eval f st)) s) = jsset_add e (subscribers (signals st s))"
proof (induction f arbitrary: st)
  case (Add a b)
  from Add.IH(1)[OF Add.prems] Add.IH(2)[of "snd (eval a st)"] Add.prems
  show ?case
    by (auto simp: split_beta eval_currentEffect jsset_add_idem)
qed (auto simp: SignalNode_get_def upd_effect_def upd_signal_def)

lemma set_inside_own_effect:
  assumes run: "isRunning (effects st e)"
    and subs: "subscribers (signals st sg) = [] \<or> subscribers (signals st sg) = [Some e]"
  shows "\<exists>st'. run (Suc (Suc (Suc n))) (Set_signal sg v) st = Some st' \<and>
     sn_value (signals st' sg) = v \<and> effects st' = effects st \<and>
     invocations st' = invocations st \<and> effectStack st' = effectStack st"
proof (cases "sn_value (signals st sg) = v")
  case True
  then show ?thesis by (simp add: set_body_def)
next
  case False
  show ?thesis
  proof (cases "0 < batchDepth st")
    case True
    with False show ?thesis by (simp add: set_body_def Let_def upd_signal_def)
  next
    case b: False
    from subs show ?thesis
    proof
      assume "subscribers (signals st sg) = []"
      with False b show ?thesis
        by (simp add: set_body_def Let_def upd_signal_def forEach_subscribers_body_def)
    next
      assume "subscribers (signals st sg) = [Some e]"
      with False b run show ?thesis
        by (simp add: set_body_def Let_def upd_signal_def forEach_subscribers_body_def
            execute_body_def)
    qed
  qed
qed

subsection \<open>Scenarios\<close>

lemmas runtime_defs = createEffect_def createSignal_def alloc_Effect_def Effect_execute_def
  initial_runtime_def new_Effect_def new_SignalNode_def execute_body_def execute_enter_def
  execute_leave_def exec_body_def exec_cmd_body_def teardown_def SignalNode_get_def
  SignalNode_unsubscribe_def upd_effect_def upd_signal_def jsset_add_def jsset_delete_def
  list_add_def set_body_def forEach_subscribers_body_def forEach_effects_body_def batch_body_def
  untrack_body_def SignalNode_set_def batch_def exec_def createComputed_def SignalNode_peek_def

text \<open>
  Two signals \<open>a\<close> and \<open>b\<close> (numbers 0 and 1) and one effect whose closure is
  \<open>() => { a() + b() }\<close>.
\<close>
definition sum_effect :: "val \<Rightarrow> val \<Rightarrow> runtime option" where
  "sum_effect va vb =
     (case createSignal va initial_runtime of (a, st1) \<Rightarrow>
        (case createSignal vb st1 of (b, st2) \<Rightarrow>
           map_option snd (createEffect 4 [Eval (Add (Get a) (Get b))] None st2)))"

lemma batch_nested_general:
  assumes "0 < batchDepth s" "batch n cs s = Some s'"
  shows "invocations s' = invocations s \<and> batchDepth s' = batchDepth s"
  using run_deferred[of n "Batch_block cs" s s'] run_batchDepth[of n "Batch_block cs" s s'] assms
  by (simp add: batch_def user_call_def)

text \<open>
  A closure that reads signal 0 and then writes it: \<open>() => { s(); s.set(s.peek() + 1) }\<close>.
\<close>

definition self_writer :: "cmd list" where
  "self_writer = [Eval (Get 0), Set 0 (Add (Peek 0) (Const (Num 1)))]"

lemma self_writer_once:
  "\<exists>st. createEffect 8 self_writer None (snd (createSignal (Num 0) initial_runtime)) = Some (0, st) \<and>
     invocations st = [0] \<and> signal_values st 0 = Num 1 \<and> subscribers (signals st 0) = [Some 0]"
  by (simp add: self_writer_def runtime_defs eval_nat_numeral signal_values_def)

subsection \<open>More fuel changes nothing\<close>

definition le_callee :: "callee \<Rightarrow> callee \<Rightarrow> bool" where
  "le_callee f g \<longleftrightarrow> (\<forall>c s r. f c s = Some r \<longrightarrow> g c s = Some r)"

lemma le_calleeD: "le_callee f g \<Longrightarrow> f c s = Some r \<Longrightarrow> g c s = Some r"
  by (simp add: le_callee_def)

lemma step_mono:
  assumes "le_callee f g"
  shows "exec_body f cs st = Some r \<Longrightarrow> exec_body g cs st = Some r"
    and "exec_cmd_body f c' st = Some r \<Longrightarrow> exec_cmd_body g c' st = Some r"
    and "set_body f s v st = Some r \<Longrightarrow> set_body g s v st = Some r"
    and "forEach_subscribers_body f s i st = Some r \<Longrightarrow> forEach_subscribers_body g s i st = Some r"
    and "execute_body f e st = Some r \<Longrightarrow> execute_body g e st = Some r"
    and "forEach_effects_body f es st = Some r \<Longrightarrow> forEach_effects_body g es st = Some r"
    and "batch_body f cs st = Some r \<Longrightarrow> batch_body g cs st = Some r"
    and "untrack_body f cs st = Some r \<Longrightarrow> untrack_body g cs st = Some r"
proof -
  note d = le_calleeD[OF assms]
  show "exec_body f cs st = Some r \<Longrightarrow> exec_body g cs st = Some r"
    by (auto simp: exec_body_def split: list.splits option.splits dest!: d)
  show "exec_cmd_body f c' st = Some r \<Longrightarrow> exec_cmd_body g c' st = Some r"
    by (cases c') (auto simp: exec_cmd_body_def split_beta dest!: d)
  show "set_body f s v st = Some r \<Longrightarrow> set_body g s v st = Some r"
    by (auto simp: set_body_def Let_def split: if_splits dest!: d)
  show "forEach_subscribers_body f s i st = Some r \<Longrightarrow> forEach_subscribers_body g s i st = Some r"
    by (auto simp: forEach_subscribers_body_def split: if_splits option.splits dest!: d)
  show "execute_body f e st = Some r \<Longrightarrow> execute_body g e st = Some r"
    by (auto simp: execute_body_def split: if_splits option.splits dest!: d)
  show "forEach_effects_body f es st = Some r \<Longrightarrow> forEach_effects_body g es st = Some r"
    by (auto simp: forEach_effects_body_def split: list.splits option.splits dest!: d)
  show "batch_body f cs st = Some r \<Longrightarrow> batch_body g cs st = Some r"
    by (auto simp: batch_body_def Let_def split: option.splits if_splits dest!: d)
  show "untrack_body f cs st = Some r \<Longrightarrow> untrack_body g cs st = Some r"
    by (auto simp: untrack_body_def Let_def split: option.splits dest!: d)
qed

lemma run_Suc: "run n c st = Some st' \<Longrightarrow> run (Suc n) c st = Some st'"
proof (induction n arbitrary: c st st')
  case 0
  then show ?case by simp
next
  case (Suc n)
  have le: "le_callee (run n) (run (Suc n))"
    unfolding le_callee_def using Suc.IH by blast
  from Suc.prems have p: "(case c of
        Exec cs \<Rightarrow> exec_body (run n) cs st
      | Exec_cmd c' \<Rightarrow> exec_cmd_body (run n) c' st
      | Set_signal s v \<Rightarrow> set_body (run n) s v st
      | ForEach_subscribers s i \<Rightarrow> forEach_subscribers_body (run n) s i st
      | Execute e \<Rightarrow> execute_body (run n) e st
      | ForEach_effects es \<Rightarrow> forEach_effects_body (run n) es st
      | Batch_block cs \<Rightarrow> batch_body (run n) cs st
      | Untrack_block cs \<Rightarrow> untrack_body (run n) cs st) = Some st'"
    by simp
  show ?case
    unfolding run.simps(2)[of "Suc n"] using p
    by (cases c) (simp_all only: call.case step_mono[OF le])
qed

lemma run_more: "run n c st = Some st' \<Longrightarrow> run (n + k) c st = Some st'"
  by (induction k) (simp_all add: run_Suc del: run.simps)

lemma run_le: "run n c st = Some st' \<Longrightarrow> n \<le> m \<Longrightarrow> run m c st = Some st'"
  using run_more[of n c st st' "m - n"] by simp

lemma run_deterministic: "run n c st = Some a \<Longrightarrow> run m c st = Some b \<Longrightarrow> a = b"
  using run_le[of n c st a "max n m"] run_le[of m c st b "max n m"] by simp

lemma exec_Nil: "run (Suc n) (Exec []) st = Some st"
  by (simp add: exec_body_def)

lemma exec_Cons:
  "run (Suc n) (Exec (c # cs)) st =
     (case run n (Exec_cmd c) st of None \<Rightarrow> None | Some st1 \<Rightarrow> run n (Exec cs) st1)"
  by (simp add: exec_body_def)

lemma exec_append_D:
  "run n (Exec (cs @ ds)) st = Some st' \<Longrightarrow>
   \<exists>s1. run n (Exec cs) st = Some s1 \<and> run n (Exec ds) s1 = Some st'"
proof (induction cs arbitrary: n st)
  case Nil
  then obtain k where "n = Suc k" by (auto dest: run_SomeD)
  with Nil show ?case by (simp add: exec_body_def)
next
  case (Cons c cs)
  from Cons.prems obtain k where n: "n = Suc k" by (auto dest: run_SomeD)
  with Cons.prems obtain s0 where a: "run k (Exec_cmd c) st = Some s0"
    and b: "run k (Exec (cs @ ds)) s0 = Some st'"
    by (auto simp: exec_body_def split: option.splits)
  from Cons.IH[OF b] obtain s1 where c: "run k (Exec cs) s0 = Some s1"
    and d: "run k (Exec ds) s1 = Some st'"
    by blast
  have "run n (Exec (c # cs)) st = Some s1"
    unfolding n exec_Cons using a c by simp
  moreover have "run n (Exec ds) s1 = Some st'"
    unfolding n using d by (rule run_Suc)
  ultimately show ?case by blast
qed

lemma exec_append_I:
  "run n (Exec cs) st = Some s1 \<Longrightarrow> run m (Exec ds) s1 = Some st' \<Longrightarrow>
   run (n + m) (Exec (cs @ ds)) st = Some st'"
proof (induction cs arbitrary: n st)
  case Nil
  then obtain k where "n = Suc k" by (auto dest: run_SomeD)
  with Nil have "s1 = st" by (simp add: exec_body_def)
  with Nil.prems(2) show ?case using run_more[of m "Exec ds" st st' n] by (simp add: add.commute)
next
  case (Cons c cs)
  from Cons.prems obtain k where n: "n = Suc k" by (auto dest: run_SomeD)
  with Cons.prems obtain s0 where a: "run k (Exec_cmd c) st = Some s0"
    and b: "run k (Exec cs) s0 = Some s1"
    by (auto simp: exec_body_def split: option.splits)
  from Cons.IH[OF b Cons.prems(2)] have "run (k + m) (Exec (cs @ ds)) s0 = Some st'" .
  moreover from run_more[OF a] have "run (k + m) (Exec_cmd c) st = Some s0" .
  ultimately show ?case unfolding n by (simp add: exec_Cons del: run.simps)
qed

lemma run_call:
  "run (Suc n) (Exec cs) st = exec_body (run n) cs st"
  "run (Suc n) (Exec_cmd c') st = exec_cmd_body (run n) c' st"
  "run (Suc n) (Set_signal s v) st = set_body (run n) s v st"
  "run (Suc n) (ForEach_subscribers s i) st = forEach_subscribers_body (run n) s i st"
  "run (Suc n) (Execute e) st = execute_body (run n) e st"
  "run (Suc n) (ForEach_effects es) st = forEach_effects_body (run n) es st"
  "run (Suc n) (Batch_block cs) st = batch_body (run n) cs st"
  "run (Suc n) (Untrack_block cs) st = untrack_body (run n) cs st"
  by simp_all

subsection \<open>Two writes in a batch\<close>

text \<open>
  \<open>sole_subscriber e s st\<close>: the subscriber set of \<open>s\<close> holds \<open>e\<close> and nothing else.
  \<open>written s v st\<close>: the state with \<open>v\<close> stored in \<open>s\<close>.
\<close>

definition sole_subscriber :: "effid \<Rightarrow> sigid \<Rightarrow> runtime \<Rightarrow> bool" where
  "sole_subscriber e s st \<longleftrightarrow> List.map_filter id (subscribers (signals st s)) = [e]"

definition written :: "sigid \<Rightarrow> val \<Rightarrow> runtime \<Rightarrow> runtime" where
  "written s v st = upd_signal s (\<lambda>sn. sn\<lparr>sn_value := v\<rparr>) st"

lemma written_same: "sn_value (signals st s) = v \<Longrightarrow> written s v st = st"
  by (auto simp: written_def upd_signal_def)

lemma written_simps [simp]:
  "batchDepth (written s v st) = batchDepth st"
  "pendingEffects (written s v st) = pendingEffects st"
  "effects (written s v st) = effects st"
  "invocations (written s v st) = invocations st"
  "currentEffect (written s v st) = currentEffect st"
  "subscribers (signals (written s v st) s') = subscribers (signals st s')"
  "sn_value (signals (written s v st) s') = (if s' = s then v else sn_value (signals st s'))"
  by (simp_all add: written_def upd_signal_def)

lemma written_update [simp]:
  "written s v (st\<lparr>pendingEffects := p\<rparr>) = (written s v st)\<lparr>pendingEffects := p\<rparr>"
  "written s v (st\<lparr>batchDepth := d\<rparr>) = (written s v st)\<lparr>batchDepth := d\<rparr>"
  by (simp_all add: written_def upd_signal_def)

lemma set_deferred:
  "0 < batchDepth st \<Longrightarrow>
   run (Suc n) (Set_signal s v) st =
     Some (if sn_value (signals st s) = v then st
           else (written s v st)\<lparr>pendingEffects :=
                  fold list_add (List.map_filter id (subscribers (signals st s)))
                    (pendingEffects st)\<rparr>)"
  by (simp add: set_body_def Let_def written_def upd_signal_def)

lemma exec_Set_Const:
  "run (Suc (Suc n)) (Exec_cmd (Set s (Const v))) st = run (Suc n) (Set_signal s v) st"
  by (simp add: exec_cmd_body_def)

lemma exec_Batch:
  "run (Suc (Suc n)) (Exec_cmd (Batch cs)) st = run (Suc n) (Batch_block cs) st"
  by (simp add: exec_cmd_body_def)

definition pending_after :: "effid \<Rightarrow> bool \<Rightarrow> effid list" where
  "pending_after e changed = (if changed then [e] else [])"

lemma two_writes_deferred:
  assumes "0 < batchDepth st" "pendingEffects st = []"
    "sole_subscriber e a st" "sole_subscriber e b st"
  shows "run (n + 4) (Exec [Set a (Const x), Set b (Const y)]) st =
     Some ((written b y (written a x st))\<lparr>pendingEffects :=
        pending_after e (x \<noteq> sn_value (signals st a) \<or> y \<noteq> sn_value (signals (written a x st) b))\<rparr>)"
proof -
  have n: "n + 4 = Suc (Suc (Suc (Suc n)))" by simp
  have p: "st\<lparr>pendingEffects := []\<rparr> = st" using assms(2) by (cases st) simp
  show ?thesis
    unfolding n exec_Cons exec_Set_Const
    using assms p
    by (simp add: set_deferred sole_subscriber_def pending_after_def list_add_def written_same
        exec_Nil del: run.simps)
qed

lemma nested_writes_deferred:
  assumes "0 < batchDepth st" "pendingEffects st = []"
    "sole_subscriber e a st" "sole_subscriber e b st"
  shows "run (n + 6) (Exec [Batch [Set a (Const x)], Set b (Const y)]) st =
     Some ((written b y (written a x st))\<lparr>pendingEffects :=
        pending_after e (x \<noteq> sn_value (signals st a) \<or> y \<noteq> sn_value (signals (written a x st) b))\<rparr>)"
proof -
  have n: "n + 6 = Suc (Suc (Suc (Suc (Suc (Suc n)))))" by simp
  have p: "st\<lparr>pendingEffects := []\<rparr> = st" using assms(2) by (cases st) simp
  have d: "st\<lparr>batchDepth := batchDepth st\<rparr> = st" by simp
  have inner: "run (Suc (Suc (Suc (Suc n)))) (Batch_block [Set a (Const x)]) st =
      Some (if sn_value (signals st a) = x then st else (written a x st)\<lparr>pendingEffects := [e]\<rparr>)"
    using assms
    by (simp add: run_call(7) batch_body_def exec_Cons exec_Set_Const set_deferred exec_Nil Let_def
        sole_subscriber_def list_add_def del: run.simps)
  show ?thesis
    unfolding n exec_Cons exec_Batch inner exec_Set_Const
    using assms p
    by (simp add: set_deferred sole_subscriber_def pending_after_def list_add_def written_same
        exec_Nil del: run.simps)
qed

lemma flush_one:
  "run (Suc (Suc (Suc n))) (ForEach_effects [e]) S = Effect_execute (Suc (Suc n)) e S"
  by (simp add: run_call(6) forEach_effects_body_def Effect_execute_def
      split: option.splits del: run.simps)

lemma batch_outermost_flush:
  assumes "batchDepth st = 0" "pendingEffects st = []"
    and body: "run (Suc (Suc (Suc k))) (Exec cs) (st\<lparr>batchDepth := 1\<rparr>) =
       Some ((W\<lparr>batchDepth := 1\<rparr>)\<lparr>pendingEffects := pending_after e changed\<rparr>)"
    and W: "batchDepth W = 0" "pendingEffects W = []"
  shows "batch (Suc (Suc (Suc (Suc k)))) cs st =
     (if changed then Effect_execute (Suc (Suc k)) e W else Some W)"
proof -
  note body' = body[unfolded One_nat_def]
  have w: "W\<lparr>batchDepth := 0, pendingEffects := []\<rparr> = W" using W by (cases W) simp
  have w2: "W\<lparr>pendingEffects := [], batchDepth := 0\<rparr> = W" using W by (cases W) simp
  show ?thesis
  proof (cases changed)
    case True
    have "batch (Suc (Suc (Suc (Suc k)))) cs st = run (Suc (Suc (Suc k))) (ForEach_effects [e]) W"
      using assms(1) True w w2
      by (simp add: batch_def run_call(7) batch_body_def body' pending_after_def Let_def
          del: run.simps)
    with flush_one[of k e W] True show ?thesis by simp
  next
    case False
    then show ?thesis
      using assms(1) w w2 W
      by (simp add: batch_def run_call(6,7) batch_body_def body' pending_after_def Let_def
          forEach_effects_body_def del: run.simps)
  qed
qed

lemma fold_unsubscribe_values:
  "sn_value (signals (fold (\<lambda>s. SignalNode_unsubscribe s e) ds st) s') = sn_value (signals st s')"
  by (induction ds arbitrary: st) (simp_all add: SignalNode_unsubscribe_def upd_signal_def)

lemma execute_enter_simps:
  "invocations (execute_enter e st) = invocations st @ [e]"
  "isRunning (effects (execute_enter e st) e)"
  "signal_values (execute_enter e st) = signal_values st"
  "batchDepth (execute_enter e st) = batchDepth st"
  by (simp_all add: execute_enter_def Let_def upd_effect_def teardown_def fold_unsubscribe_other
      fold_unsubscribe_values signal_values_def)

lemma execute_leave_simps:
  "invocations (execute_leave e p st) = invocations st"
  "signal_values (execute_leave e p st) = signal_values st"
  "batchDepth (execute_leave e p st) = batchDepth st"
  "pendingEffects (execute_leave e p st) = pendingEffects st"
  by (simp_all add: execute_leave_def Let_def upd_effect_def signal_values_def split: option.splits)

definition two_writes :: "sigid \<Rightarrow> val \<Rightarrow> sigid \<Rightarrow> val \<Rightarrow> cmd list" where
  "two_writes a x b y = [Set a (Const x), Set b (Const y)]"

definition nested_writes :: "sigid \<Rightarrow> val \<Rightarrow> sigid \<Rightarrow> val \<Rightarrow> cmd list" where
  "nested_writes a x b y = [Batch [Set a (Const x)], Set b (Const y)]"

text \<open>
  \<open>coalescing a b e st\<close>: an outermost batch can start (depth 0, nothing pending), and
  \<open>e\<close> is the one subscriber of the two different signals \<open>a\<close> and \<open>b\<close>.
  \<open>call_cleanup n e st\<close> is \<open>this.cleanup?.()\<close> of the effect \<open>e\<close>.
\<close>

definition coalescing :: "sigid \<Rightarrow> sigid \<Rightarrow> effid \<Rightarrow> runtime \<Rightarrow> bool" where
  "coalescing a b e st \<longleftrightarrow>
     a \<noteq> b \<and> batchDepth st = 0 \<and> pendingEffects st = [] \<and>
     sole_subscriber e a st \<and> sole_subscriber e b st"

definition call_cleanup :: "nat \<Rightarrow> effid \<Rightarrow> runtime \<Rightarrow> runtime option" where
  "call_cleanup n e st =
     (case cleanup (effects st e) of None \<Rightarrow> Some st | Some cl \<Rightarrow> exec n cl st)"

lemma execute_unfold:
  "\<not> isRunning (effects S e) \<Longrightarrow>
   Effect_execute (Suc n) e S =
     (case call_cleanup n e S of
        None \<Rightarrow> None
      | Some st1 \<Rightarrow>
          map_option (execute_leave e (currentEffect st1))
            (run n (Exec (fn (effects st1 e))) (execute_enter e st1)))"
  by (simp add: Effect_execute_def run_call(5) execute_body_def call_cleanup_def exec_def
      split: option.splits del: run.simps)

lemma execute_once:
  assumes "Effect_execute m e S = Some st'" "\<not> isRunning (effects S e)"
  shows "\<exists>k st1. call_cleanup k e S = Some st1 \<and>
     count_list (invocations st') e = Suc (count_list (invocations st1) e)"
proof -
  from assms(1) obtain n where m: "m = Suc n"
    unfolding Effect_execute_def by (auto dest: run_SomeD)
  from assms obtain st1 s7 where c: "call_cleanup n e S = Some st1"
    and b: "run n (Exec (fn (effects st1 e))) (execute_enter e st1) = Some s7"
    and l: "st' = execute_leave e (currentEffect st1) s7"
    unfolding m execute_unfold[OF assms(2)] by (auto split: option.splits simp del: run.simps)
  have "held e (execute_enter e st1) s7"
    using b by (rule run_running) (simp add: execute_enter_simps)
  then have "count_list (invocations st') e = Suc (count_list (invocations st1) e)"
    unfolding l by (simp add: held_def execute_enter_simps execute_leave_simps)
  with c show ?thesis by blast
qed

lemma execute_running:
  "isRunning (effects S e) \<Longrightarrow> Effect_execute (Suc n) e S = Some S"
  by (simp add: Effect_execute_def execute_body_def)

lemma batch_writes_eq:
  assumes "coalescing a b e st" and cs: "cs = two_writes a x b y \<or> cs = nested_writes a x b y"
  shows "batch (n + 7) cs st =
     (if x \<noteq> sn_value (signals st a) \<or> y \<noteq> sn_value (signals st b)
      then Effect_execute (n + 5) e (written b y (written a x st))
      else Some st)"
proof -
  let ?W = "written b y (written a x st)"
  let ?D = "st\<lparr>batchDepth := 1\<rparr>"
  from assms(1) have H: "a \<noteq> b" "batchDepth st = 0" "pendingEffects st = []"
    "sole_subscriber e a st" "sole_subscriber e b st"
    by (simp_all add: coalescing_def)
  have D: "0 < batchDepth ?D" "pendingEffects ?D = []" "sole_subscriber e a ?D" "sole_subscriber e b ?D"
    using H by (simp_all add: sole_subscriber_def)
  have n: "n + 7 = Suc (Suc (Suc (Suc (n + 3))))" "n + 5 = Suc (Suc (n + 3))" by simp_all
  have body: "run (Suc (Suc (Suc (n + 3)))) (Exec cs) ?D =
       Some ((?W\<lparr>batchDepth := 1\<rparr>)\<lparr>pendingEffects :=
          pending_after e (x \<noteq> sn_value (signals st a) \<or> y \<noteq> sn_value (signals st b))\<rparr>)"
  proof -
    have f: "Suc (Suc (Suc (n + 3))) = (n + 2) + 4" "Suc (Suc (Suc (n + 3))) = n + 6" by simp_all
    from cs show ?thesis
    proof
      assume "cs = two_writes a x b y"
      then show ?thesis
        unfolding f(1) two_writes_def using two_writes_deferred[OF D, of "n + 2" x y] H(1)
        by simp
    next
      assume "cs = nested_writes a x b y"
      then show ?thesis
        unfolding f(2) nested_writes_def using nested_writes_deferred[OF D, of n x y] H(1)
        by simp
    qed
  qed
  have W: "batchDepth ?W = 0" "pendingEffects ?W = []"
    using H by simp_all
  have same: "\<not> (x \<noteq> sn_value (signals st a) \<or> y \<noteq> sn_value (signals st b)) \<Longrightarrow> ?W = st"
    by (simp add: written_same)
  from batch_outermost_flush[OF H(2,3) body W] same show ?thesis
    unfolding n by auto
qed

lemma batch_writes_executed:
  assumes "coalescing a b e st" and cs: "cs = two_writes a x b y \<or> cs = nested_writes a x b y"
    and ch: "x \<noteq> sn_value (signals st a) \<or> y \<noteq> sn_value (signals st b)"
    and r: "batch m cs st = Some st'"
  shows "Effect_execute (m + 5) e (written b y (written a x st)) = Some st'"
proof -
  from r have "batch (m + 7) cs st = Some st'"
    unfolding batch_def by (rule run_more)
  with batch_writes_eq[OF assms(1) cs, of m] ch show ?thesis by (simp split: if_splits)
qed

lemma batch_writes_once:
  assumes "coalescing a b e st" and cs: "cs = two_writes a x b y \<or> cs = nested_writes a x b y"
    and ch: "x \<noteq> sn_value (signals st a) \<or> y \<noteq> sn_value (signals st b)"
    and r: "batch m cs st = Some st'"
  shows "isRunning (effects st e) \<Longrightarrow> st' = written b y (written a x st)"
    and "\<not> isRunning (effects st e) \<Longrightarrow>
      \<exists>k st1. call_cleanup k e (written b y (written a x st)) = Some st1 \<and>
        count_list (invocations st') e = Suc (count_list (invocations st1) e)"
    and "\<not> isRunning (effects st e) \<Longrightarrow> cleanup (effects st e) = None \<Longrightarrow>
      count_list (invocations st') e = Suc (count_list (invocations st) e)"
proof -
  let ?W = "written b y (written a x st)"
  note x = batch_writes_executed[OF assms]
  have m: "m + 5 = Suc (m + 4)" by simp
  show "st' = ?W" if "isRunning (effects st e)"
  proof -
    from that have "isRunning (effects ?W e)" by simp
    from execute_running[OF this, of "m + 4"] x show ?thesis unfolding m by simp
  qed
  show 2: "\<exists>k st1. call_cleanup k e ?W = Some st1 \<and>
        count_list (invocations st') e = Suc (count_list (invocations st1) e)"
    if "\<not> isRunning (effects st e)"
    using that by (intro execute_once[OF x]) simp
  show "count_list (invocations st') e = Suc (count_list (invocations st) e)"
    if "\<not> isRunning (effects st e)" "cleanup (effects st e) = None"
    using 2[OF that(1)] that(2) by (auto simp: call_cleanup_def)
qed

lemma batch_writes_none:
  assumes "coalescing a b e st" and cs: "cs = two_writes a x b y \<or> cs = nested_writes a x b y"
    and ch: "x = sn_value (signals st a)" "y = sn_value (signals st b)"
  shows "batch (n + 7) cs st = Some st"
  using batch_writes_eq[OF assms(1) cs, of n] ch by simp

lemma batch_writes_body:
  assumes "coalescing a b e st" and cs: "cs = two_writes a x b y \<or> cs = nested_writes a x b y"
    and ch: "x \<noteq> sn_value (signals st a) \<or> y \<noteq> sn_value (signals st b)"
    and r: "exec m cs (st\<lparr>batchDepth := 1\<rparr>) = Some s1"
  shows "invocations s1 = invocations st \<and> pendingEffects s1 = [e]"
proof -
  let ?D = "st\<lparr>batchDepth := 1\<rparr>"
  from assms(1) have H: "a \<noteq> b" "batchDepth st = 0" "pendingEffects st = []"
    "sole_subscriber e a st" "sole_subscriber e b st"
    by (simp_all add: coalescing_def)
  have D: "0 < batchDepth ?D" "pendingEffects ?D = []" "sole_subscriber e a ?D" "sole_subscriber e b ?D"
    using H by (simp_all add: sole_subscriber_def)
  from cs have "\<exists>k. run k (Exec cs) ?D = Some ((written b y (written a x ?D))\<lparr>pendingEffects := [e]\<rparr>)"
  proof
    assume "cs = two_writes a x b y"
    then show ?thesis
      unfolding two_writes_def using two_writes_deferred[OF D, of 0 x y] H(1) ch
      by (auto simp: pending_after_def simp del: run.simps)
  next
    assume "cs = nested_writes a x b y"
    then show ?thesis
      unfolding nested_writes_def using nested_writes_deferred[OF D, of 0 x y] H(1) ch
      by (auto simp: pending_after_def simp del: run.simps)
  qed
  then obtain k where "run k (Exec cs) ?D = Some ((written b y (written a x ?D))\<lparr>pendingEffects := [e]\<rparr>)"
    by blast
  with r have "s1 = (written b y (written a x ?D))\<lparr>pendingEffects := [e]\<rparr>"
    unfolding exec_def by (rule run_deterministic)
  then show ?thesis by simp
qed

lemma batch_writes_reader:
  assumes "coalescing a b e st" and cs: "cs = two_writes a x b y \<or> cs = nested_writes a x b y"
    and ch: "x \<noteq> sn_value (signals st a) \<or> y \<noteq> sn_value (signals st b)"
    and e: "\<not> isRunning (effects st e)" "cleanup (effects st e) = None"
    and f: "fn (effects st e) = [Eval f]"
  shows "\<exists>st'. batch (n + 7) cs st = Some st' \<and> invocations st' = invocations st @ [e] \<and>
     signal_values st' = (signal_values st)(a := x, b := y) \<and>
     batchDepth st' = 0 \<and> pendingEffects st' = []"
proof -
  let ?W = "written b y (written a x st)"
  let ?S = "execute_enter e ?W"
  from assms(1) have H: "batchDepth st = 0" "pendingEffects st = []"
    by (simp_all add: coalescing_def)
  have n: "n + 5 = Suc (Suc (Suc (n + 2)))" by simp
  have b: "run (Suc (Suc (n + 2))) (Exec [Eval f]) ?S = Some (snd (eval f ?S))"
    by (simp add: exec_Cons exec_Nil run_call(2) exec_cmd_body_def del: run.simps)
  have x: "Effect_execute (n + 5) e ?W =
      Some (execute_leave e (currentEffect ?W) (snd (eval f ?S)))"
    unfolding n using e f b
    by (subst execute_unfold) (simp_all add: call_cleanup_def del: run.simps)
  have c: "same_control ?S (snd (eval f ?S))" by (rule eval_control)
  have "signal_values ?W = (signal_values st)(a := x, b := y)"
    by (auto simp: signal_values_def)
  moreover have "pendingEffects ?S = []"
    using H by (simp add: execute_enter_def Let_def upd_effect_def teardown_def fold_unsubscribe_other)
  ultimately show ?thesis
    using batch_writes_eq[OF assms(1) cs, of n] ch x c H
    by (simp add: execute_leave_simps execute_enter_simps eval_values eval_invocations
        eval_batchDepth same_control_def del: run.simps)
qed

subsection \<open>A signal that no closure names\<close>

text \<open>The signals a closure names.\<close>

fun expr_signals :: "expr \<Rightarrow> sigid set" where
  "expr_signals (Const v) = {}"
| "expr_signals (Get s) = {s}"
| "expr_signals (Peek s) = {s}"
| "expr_signals (Add a b) = expr_signals a \<union> expr_signals b"

fun cmd_signals :: "cmd \<Rightarrow> sigid set" where
  "cmd_signals (Eval x) = expr_signals x"
| "cmd_signals (Set s x) = insert s (expr_signals x)"
| "cmd_signals (Batch cs) = (\<Union>c \<in> set cs. cmd_signals c)"
| "cmd_signals (Untrack cs) = (\<Union>c \<in> set cs. cmd_signals c)"

definition cmds_signals :: "cmd list \<Rightarrow> sigid set" where
  "cmds_signals cs = (\<Union>c \<in> set cs. cmd_signals c)"

definition closure_signals :: "effect \<Rightarrow> sigid set" where
  "closure_signals ef =
     cmds_signals (fn ef) \<union>
     (case fn_result ef of None \<Rightarrow> {} | Some cl \<Rightarrow> cmds_signals cl) \<union>
     (case cleanup ef of None \<Rightarrow> {} | Some cl \<Rightarrow> cmds_signals cl)"

fun call_signals :: "call \<Rightarrow> sigid set" where
  "call_signals (Exec cs) = cmds_signals cs"
| "call_signals (Exec_cmd c) = cmd_signals c"
| "call_signals (Set_signal s v) = {s}"
| "call_signals (ForEach_subscribers s i) = {s}"
| "call_signals (Execute e) = {}"
| "call_signals (ForEach_effects es) = {}"
| "call_signals (Batch_block cs) = cmds_signals cs"
| "call_signals (Untrack_block cs) = cmds_signals cs"

text \<open>
  \<open>unshared sg e st\<close>: the effect \<open>e\<close> is in progress, no closure of another effect names
  the signal \<open>sg\<close>, and \<open>sg\<close> has no subscriber entry.
\<close>

definition unshared :: "sigid \<Rightarrow> effid \<Rightarrow> runtime \<Rightarrow> bool" where
  "unshared sg e st \<longleftrightarrow>
     isRunning (effects st e) \<and> subscribers (signals st sg) = [] \<and>
     (\<forall>g. g \<noteq> e \<longrightarrow> sg \<notin> closure_signals (effects st g))"

lemma cmds_signals_simps [simp]:
  "cmds_signals [] = {}"
  "cmds_signals (c # cs) = cmd_signals c \<union> cmds_signals cs"
  "cmds_signals (cs @ ds) = cmds_signals cs \<union> cmds_signals ds"
  by (auto simp: cmds_signals_def)

lemma cmd_signals_blocks [simp]:
  "cmd_signals (Batch cs) = cmds_signals cs"
  "cmd_signals (Untrack cs) = cmds_signals cs"
  by (simp_all add: cmds_signals_def)

declare cmd_signals.simps(3,4) [simp del]

lemma eval_unnamed:
  "sg \<notin> expr_signals x \<Longrightarrow> signals (snd (eval x st)) sg = signals st sg"
proof (induction x arbitrary: st)
  case (Add a b)
  then show ?case by (simp add: split_beta)
qed (auto simp: SignalNode_get_def upd_effect_def upd_signal_def split: option.splits)

lemma eval_unshared:
  assumes "unshared sg e st" "sg \<notin> expr_signals x"
  shows "unshared sg e (snd (eval x st))"
  using assms eval_control[of st x] eval_unnamed[OF assms(2), of st]
  by (simp add: unshared_def same_control_def closure_signals_def)

lemma fold_unsubscribe_unshared:
  "subscribers (signals st sg) = [] \<Longrightarrow>
   signals (fold (\<lambda>s. SignalNode_unsubscribe s g) ds st) sg = signals st sg"
proof (induction ds arbitrary: st)
  case Nil
  then show ?case by simp
next
  case (Cons d ds)
  have "signals (SignalNode_unsubscribe d g st) sg = signals st sg"
    using Cons.prems by (auto simp: SignalNode_unsubscribe_def upd_signal_def jsset_delete_def)
  with Cons show ?case by simp
qed

lemma execute_enter_unshared:
  assumes "unshared sg e st" "g \<noteq> e"
  shows "unshared sg e (execute_enter g st)" "signals (execute_enter g st) sg = signals st sg"
proof -
  from assms(1) have s: "subscribers (signals st sg) = []" by (simp add: unshared_def)
  show "signals (execute_enter g st) sg = signals st sg"
    using fold_unsubscribe_unshared[of "upd_effect g (\<lambda>ef. ef\<lparr>cleanup := None\<rparr>) st" sg g] s
    by (simp add: execute_enter_def Let_def upd_effect_def teardown_def)
  then show "unshared sg e (execute_enter g st)"
    using assms
    by (auto simp: unshared_def execute_enter_def Let_def upd_effect_def teardown_def
        fold_unsubscribe_other closure_signals_def split: option.splits)
qed

lemma execute_leave_unshared:
  assumes "unshared sg e st" "g \<noteq> e"
  shows "unshared sg e (execute_leave g p st)" "signals (execute_leave g p st) sg = signals st sg"
  using assms
  by (auto simp: unshared_def execute_leave_def Let_def upd_effect_def closure_signals_def
      split: option.splits)

lemma run_unshared:
  "run n c st = Some st' \<Longrightarrow> unshared sg e st \<Longrightarrow> sg \<notin> call_signals c \<Longrightarrow>
   unshared sg e st' \<and> signals st' sg = signals st sg"
proof (induction n arbitrary: c st st')
  case 0
  then show ?case by simp
next
  case (Suc n)
  note IH = Suc.IH
  show ?case
  proof (cases c)
    case (Exec cs)
    show ?thesis
    proof (cases cs)
      case Nil
      with Suc.prems Exec show ?thesis by (simp add: exec_body_def)
    next
      case (Cons c' cs')
      with Suc.prems Exec obtain st1 where
        a: "run n (Exec_cmd c') st = Some st1" and b: "run n (Exec cs') st1 = Some st'"
        by (auto simp: exec_body_def split: option.splits)
      from IH[OF a Suc.prems(2)] Suc.prems(3) Exec Cons
      have 1: "unshared sg e st1" "signals st1 sg = signals st sg" by simp_all
      from IH[OF b 1(1)] Suc.prems(3) Exec Cons 1(2) show ?thesis by simp
    qed
  next
    case (Exec_cmd c')
    show ?thesis
    proof (cases c')
      case (Eval x)
      with Suc.prems Exec_cmd show ?thesis
        by (auto simp: exec_cmd_body_def eval_unshared eval_unnamed)
    next
      case (Set s x)
      with Suc.prems Exec_cmd have a: "run n (Set_signal s (fst (eval x st))) (snd (eval x st)) = Some st'"
        by (simp add: exec_cmd_body_def split_beta)
      from Suc.prems(3) Exec_cmd Set have x: "sg \<notin> expr_signals x" "s \<noteq> sg" by auto
      from IH[OF a eval_unshared[OF Suc.prems(2) x(1)]] x(2) eval_unnamed[OF x(1), of st]
      show ?thesis by simp
    next
      case (Batch cs)
      with Suc.prems Exec_cmd have a: "run n (Batch_block cs) st = Some st'"
        by (simp add: exec_cmd_body_def)
      from IH[OF a Suc.prems(2)] Suc.prems(3) Exec_cmd Batch show ?thesis by simp
    next
      case (Untrack cs)
      with Suc.prems Exec_cmd have a: "run n (Untrack_block cs) st = Some st'"
        by (simp add: exec_cmd_body_def)
      from IH[OF a Suc.prems(2)] Suc.prems(3) Exec_cmd Untrack show ?thesis by simp
    qed
  next
    case (Set_signal s v)
    with Suc.prems(3) have ne: "s \<noteq> sg" by simp
    show ?thesis
    proof (cases "sn_value (signals st s) = v")
      case True
      with Suc.prems Set_signal show ?thesis by (simp add: set_body_def)
    next
      case False
      let ?st1 = "upd_signal s (\<lambda>sn. sn\<lparr>sn_value := v\<rparr>) st"
      have p1: "unshared sg e ?st1" "signals ?st1 sg = signals st sg"
        using Suc.prems(2) ne by (simp_all add: unshared_def upd_signal_def)
      show ?thesis
      proof (cases "0 < batchDepth st")
        case True
        with False Suc.prems Set_signal ne show ?thesis
          by (auto simp: set_body_def Let_def upd_signal_def unshared_def)
      next
        case b: False
        with False Suc.prems Set_signal have a: "run n (ForEach_subscribers s 0) ?st1 = Some st'"
          by (simp add: set_body_def Let_def upd_signal_def)
        from IH[OF a p1(1)] ne p1(2) show ?thesis by simp
      qed
    qed
  next
    case (ForEach_subscribers s i)
    with Suc.prems(3) have ne: "s \<noteq> sg" by simp
    show ?thesis
    proof (cases "i < length (subscribers (signals st s))")
      case False
      with Suc.prems ForEach_subscribers show ?thesis
        by (simp add: forEach_subscribers_body_def)
    next
      case True
      show ?thesis
      proof (cases "subscribers (signals st s) ! i")
        case None
        with True Suc.prems ForEach_subscribers
        have a: "run n (ForEach_subscribers s (i + 1)) st = Some st'"
          by (simp add: forEach_subscribers_body_def)
        from IH[OF a Suc.prems(2)] ne show ?thesis by simp
      next
        case (Some g)
        with True Suc.prems ForEach_subscribers obtain st1 where
          a: "run n (Execute g) st = Some st1"
          and b: "run n (ForEach_subscribers s (i + 1)) st1 = Some st'"
          by (auto simp: forEach_subscribers_body_def split: option.splits)
        from IH[OF a Suc.prems(2)] have 1: "unshared sg e st1" "signals st1 sg = signals st sg"
          by simp_all
        from IH[OF b 1(1)] ne 1(2) show ?thesis by simp
      qed
    qed
  next
    case (Execute g)
    show ?thesis
    proof (cases "isRunning (effects st g)")
      case True
      with Suc.prems Execute show ?thesis by (simp add: execute_body_def)
    next
      case False
      with Suc.prems(2) have ne: "g \<noteq> e" by (auto simp: unshared_def)
      from False Suc.prems Execute obtain st1 st7 where
        a: "(case cleanup (effects st g) of None \<Rightarrow> Some st | Some cl \<Rightarrow> run n (Exec cl) st) = Some st1"
        and b: "run n (Exec (fn (effects st1 g))) (execute_enter g st1) = Some st7"
        and c: "st' = execute_leave g (currentEffect st1) st7"
        by (auto simp: execute_body_def split: option.splits)
      have 1: "unshared sg e st1 \<and> signals st1 sg = signals st sg"
      proof (cases "cleanup (effects st g)")
        case None
        with a Suc.prems(2) show ?thesis by simp
      next
        case (Some cl)
        with a have r: "run n (Exec cl) st = Some st1" by simp
        from Suc.prems(2) ne Some have "sg \<notin> cmds_signals cl"
          by (auto simp: unshared_def closure_signals_def)
        with IH[OF r Suc.prems(2)] show ?thesis by simp
      qed
      then have 2: "unshared sg e (execute_enter g st1)"
        "signals (execute_enter g st1) sg = signals st sg"
        using execute_enter_unshared[of sg e st1 g] ne by simp_all
      from 1 ne have "sg \<notin> cmds_signals (fn (effects st1 g))"
        by (auto simp: unshared_def closure_signals_def)
      with IH[OF b 2(1)] 2(2) have 3: "unshared sg e st7" "signals st7 sg = signals st sg"
        by simp_all
      with execute_leave_unshared[OF 3(1) ne, of "currentEffect st1"] show ?thesis
        unfolding c by simp
    qed
  next
    case (ForEach_effects es)
    show ?thesis
    proof (cases es)
      case Nil
      with Suc.prems ForEach_effects show ?thesis by (simp add: forEach_effects_body_def)
    next
      case (Cons g es')
      with Suc.prems ForEach_effects obtain st1 where
        a: "run n (Execute g) st = Some st1" and b: "run n (ForEach_effects es') st1 = Some st'"
        by (auto simp: forEach_effects_body_def split: option.splits)
      from IH[OF a Suc.prems(2)] have 1: "unshared sg e st1" "signals st1 sg = signals st sg"
        by simp_all
      from IH[OF b 1(1)] 1(2) show ?thesis by simp
    qed
  next
    case (Batch_block cs)
    let ?D = "st\<lparr>batchDepth := batchDepth st + 1\<rparr>"
    from Suc.prems Batch_block obtain st1 where
      a: "run n (Exec cs) ?D = Some st1"
      and b: "(let st2 = st1\<lparr>batchDepth := batchDepth st1 - 1\<rparr> in
           if batchDepth st2 = 0 then
             run n (ForEach_effects (pendingEffects st2)) (st2\<lparr>pendingEffects := []\<rparr>)
           else Some st2) = Some st'"
      by (auto simp: batch_body_def split: option.splits)
    have "unshared sg e ?D" using Suc.prems(2) by (simp add: unshared_def)
    from IH[OF a this] Suc.prems(3) Batch_block
    have 1: "unshared sg e st1" "signals st1 sg = signals st sg" by simp_all
    show ?thesis
    proof (cases "batchDepth st1 - 1 = 0")
      case True
      let ?F = "st1\<lparr>batchDepth := batchDepth st1 - 1, pendingEffects := []\<rparr>"
      from True b have c: "run n (ForEach_effects (pendingEffects st1)) ?F = Some st'"
        by (simp add: Let_def)
      have "unshared sg e ?F" using 1(1) by (simp add: unshared_def)
      from IH[OF c this] 1(2) show ?thesis by simp
    next
      case False
      with b 1 show ?thesis by (auto simp: Let_def unshared_def)
    qed
  next
    case (Untrack_block cs)
    let ?U = "st\<lparr>currentEffect := None\<rparr>"
    from Suc.prems Untrack_block obtain st1 where
      a: "run n (Exec cs) ?U = Some st1"
      and b: "st' = st1\<lparr>currentEffect := currentEffect st\<rparr>"
      by (auto simp: untrack_body_def Let_def split: option.splits)
    have "unshared sg e ?U" using Suc.prems(2) by (simp add: unshared_def)
    from IH[OF a this] Suc.prems(3) Untrack_block b show ?thesis
      by (auto simp: unshared_def)
  qed
qed

subsection \<open>Computed values of any closure\<close>

text \<open>
  \<open>computed_entered body result st\<close>: the state in which Effect.execute calls the closure
  of the effect that createComputed has just allocated. \<open>well_scoped body result st\<close>: the
  backing signal, which createComputed is about to allocate, is named neither by \<open>fn\<close> nor
  by a closure of an effect of \<open>st\<close>; in the program no closure can name it, it is a local
  constant of createComputed.
\<close>

definition computed_entered :: "cmd list \<Rightarrow> expr \<Rightarrow> runtime \<Rightarrow> runtime" where
  "computed_entered body result st =
     (case createSignal Undefined st of (sg, st1) \<Rightarrow>
        (case alloc_Effect (body @ [Set sg result]) None st1 of (e, st2) \<Rightarrow>
           execute_enter e st2))"

definition well_scoped :: "cmd list \<Rightarrow> expr \<Rightarrow> runtime \<Rightarrow> bool" where
  "well_scoped body result st \<longleftrightarrow>
     nextSignal st \<notin> cmds_signals body \<and> nextSignal st \<notin> expr_signals result \<and>
     (\<forall>g. nextSignal st \<notin> closure_signals (effects st g))"

lemma exec_Set:
  "run (Suc (Suc n)) (Exec [Set s x]) st =
     run n (Set_signal s (fst (eval x st))) (snd (eval x st))"
  by (cases n) (simp_all add: exec_body_def exec_cmd_body_def split_beta split: option.splits)

lemma createComputed_unfold:
  "createComputed (Suc k) body f st =
     map_option (\<lambda>s7. (nextSignal st,
         execute_leave (nextEffect st) (currentEffect st) s7))
       (run k (Exec (body @ [Set (nextSignal st) f])) (computed_entered body f st))"
  by (simp add: createComputed_def computed_entered_def createSignal_def alloc_Effect_def
      Effect_execute_def run_call(5) execute_body_def new_Effect_def split: option.splits
      del: run.simps)

lemma computed_entered_simps:
  "isRunning (effects (computed_entered body f st) (nextEffect st))"
  "currentEffect (computed_entered body f st) = Some (nextEffect st)"
  "subscribers (signals (computed_entered body f st) (nextSignal st)) = []"
  "invocations (computed_entered body f st) = invocations st @ [nextEffect st]"
  "signal_values (computed_entered body f st) = (signal_values st)(nextSignal st := Undefined)"
  "g \<noteq> nextEffect st \<Longrightarrow>
     closure_signals (effects (computed_entered body f st) g) = closure_signals (effects st g)"
  by (auto simp: computed_entered_def createSignal_def alloc_Effect_def execute_enter_def Let_def
      upd_effect_def teardown_def new_Effect_def new_SignalNode_def signal_values_def
      closure_signals_def)

lemma createComputed_called_once:
  assumes "createComputed k body f st = Some (sg, st')"
  shows "sg = nextSignal st \<and>
     count_list (invocations st') (nextEffect st) = Suc (count_list (invocations st) (nextEffect st))"
proof -
  let ?S = "computed_entered body f st"
  let ?e = "nextEffect st"
  from assms obtain j where k: "k = Suc j"
    by (cases k) (simp_all add: createComputed_def createSignal_def alloc_Effect_def Effect_execute_def)
  with assms obtain s7 where
    b: "run j (Exec (body @ [Set (nextSignal st) f])) ?S = Some s7"
    and c: "sg = nextSignal st" "st' = execute_leave ?e (currentEffect st) s7"
    unfolding k createComputed_unfold by (auto simp del: run.simps)
  have "held ?e ?S s7"
    using b by (rule run_running) (simp add: computed_entered_simps)
  then show ?thesis
    unfolding c by (simp add: held_def computed_entered_simps execute_leave_simps)
qed

lemma write_result:
  assumes u: "unshared sg e s1" and f: "sg \<notin> expr_signals f"
  shows "\<exists>s7. run (n + 5) (Exec [Set sg f]) s1 = Some s7 \<and>
     sn_value (signals s7 sg) = expr_value f (signal_values s1)"
proof -
  let ?s = "snd (eval f s1)"
  have u': "unshared sg e ?s" using u f by (rule eval_unshared)
  then have "isRunning (effects ?s e)"
    "subscribers (signals ?s sg) = [] \<or> subscribers (signals ?s sg) = [Some e]"
    by (simp_all add: unshared_def)
  from set_inside_own_effect[OF this, of n "fst (eval f s1)"] obtain s7 where
    s7: "run (Suc (Suc (Suc n))) (Set_signal sg (fst (eval f s1))) ?s = Some s7"
    "sn_value (signals s7 sg) = fst (eval f s1)"
    by blast
  have n: "n + 5 = Suc (Suc (Suc (Suc (Suc n))))" by simp
  show ?thesis
    unfolding n exec_Set using s7 by (auto simp: eval_value simp del: run.simps)
qed

lemma computed_entered_unshared:
  assumes "well_scoped body f st"
  shows "unshared (nextSignal st) (nextEffect st) (computed_entered body f st)"
  using assms
  by (simp add: unshared_def well_scoped_def computed_entered_simps)

lemma createComputed_value:
  assumes w: "well_scoped body f st" and r: "createComputed k body f st = Some (sg, st')"
  shows "\<exists>s1. run k (Exec body) (computed_entered body f st) = Some s1 \<and>
     SignalNode_peek sg st' = expr_value f (signal_values s1)"
proof -
  let ?S = "computed_entered body f st"
  let ?e = "nextEffect st"
  let ?sg = "nextSignal st"
  from r obtain j where k: "k = Suc j"
    by (cases k) (simp_all add: createComputed_def createSignal_def alloc_Effect_def Effect_execute_def)
  with r obtain s7 where
    b: "run j (Exec (body @ [Set ?sg f])) ?S = Some s7"
    and c: "sg = ?sg" "st' = execute_leave ?e (currentEffect st) s7"
    unfolding k createComputed_unfold by (auto simp del: run.simps)
  from exec_append_D[OF b] obtain s1 where
    b1: "run j (Exec body) ?S = Some s1" and b2: "run j (Exec [Set ?sg f]) s1 = Some s7"
    by blast
  from w have f: "?sg \<notin> expr_signals f" "?sg \<notin> call_signals (Exec body)"
    by (simp_all add: well_scoped_def)
  from run_unshared[OF b1 computed_entered_unshared[OF w] f(2)]
  have u: "unshared ?sg ?e s1" by simp
  from write_result[OF u f(1), of 0] obtain s7' where
    d: "run (0 + 5) (Exec [Set ?sg f]) s1 = Some s7'"
    and v: "sn_value (signals s7' ?sg) = expr_value f (signal_values s1)"
    by blast
  from run_deterministic[OF b2 d] v
  have "sn_value (signals s7 ?sg) = expr_value f (signal_values s1)" by simp
  then have "SignalNode_peek sg st' = expr_value f (signal_values s1)"
    unfolding c
    by (simp add: SignalNode_peek_def execute_leave_def Let_def upd_effect_def split: option.splits)
  moreover from b1 have "run k (Exec body) ?S = Some s1"
    unfolding k by (rule run_Suc)
  ultimately show ?thesis by blast
qed

lemma createComputed_returns:
  assumes w: "well_scoped body f st"
    and b1: "run m (Exec body) (computed_entered body f st) = Some s1"
  shows "\<exists>st'. createComputed (m + 6) body f st = Some (nextSignal st, st') \<and>
     SignalNode_peek (nextSignal st) st' = expr_value f (signal_values s1)"
proof -
  let ?S = "computed_entered body f st"
  let ?e = "nextEffect st"
  let ?sg = "nextSignal st"
  from w have f: "?sg \<notin> expr_signals f" "?sg \<notin> call_signals (Exec body)"
    by (simp_all add: well_scoped_def)
  from run_unshared[OF b1 computed_entered_unshared[OF w] f(2)]
  have u: "unshared ?sg ?e s1" by simp
  from write_result[OF u f(1), of 0] obtain s7 where
    d: "run (0 + 5) (Exec [Set ?sg f]) s1 = Some s7"
    and v: "sn_value (signals s7 ?sg) = expr_value f (signal_values s1)"
    by blast
  from exec_append_I[OF b1 d] have a: "run (m + 5) (Exec (body @ [Set ?sg f])) ?S = Some s7"
    by simp
  have m: "m + 6 = Suc (m + 5)" by simp
  have "createComputed (m + 6) body f st =
      Some (?sg, execute_leave ?e (currentEffect st) s7)"
    unfolding m createComputed_unfold a by simp
  moreover have "SignalNode_peek ?sg (execute_leave ?e (currentEffect st) s7) =
      expr_value f (signal_values s1)"
    using v
    by (simp add: SignalNode_peek_def execute_leave_def Let_def upd_effect_def split: option.splits)
  ultimately show ?thesis by blast
qed

text \<open>
  A closure that only returns the value of an expression. The expression may name any
  signal, the one about to be allocated included.
\<close>

lemma createComputed_pure:
  "\<exists>st'. createComputed (n + 6) [] f st = Some (nextSignal st, st') \<and>
     SignalNode_peek (nextSignal st) st' =
       expr_value f ((signal_values st)(nextSignal st := Undefined)) \<and>
     invocations st' = invocations st @ [nextEffect st]"
proof -
  let ?S = "computed_entered [] f st"
  let ?e = "nextEffect st"
  let ?sg = "nextSignal st"
  let ?s = "snd (eval f ?S)"
  let ?v = "fst (eval f ?S)"
  have S1: "isRunning (effects ?s ?e)" "invocations ?s = invocations st @ [?e]"
    using eval_control[of ?S f] by (simp_all add: same_control_def computed_entered_simps)
  have "subscribers (signals ?s ?sg) = [] \<or> subscribers (signals ?s ?sg) = [Some ?e]"
    using eval_subscribers[OF computed_entered_simps(2), of f "[]" f st ?sg]
    by (simp add: computed_entered_simps jsset_add_def)
  from set_inside_own_effect[OF S1(1) this, of n ?v] obtain S3 where
    S3: "run (Suc (Suc (Suc n))) (Set_signal ?sg ?v) ?s = Some S3"
      "sn_value (signals S3 ?sg) = ?v" "invocations S3 = invocations ?s"
    by blast
  have n: "n + 6 = Suc (Suc (Suc (Suc (Suc (Suc n)))))" by simp
  have "createComputed (n + 6) [] f st =
      Some (?sg, execute_leave ?e (currentEffect st) S3)"
    unfolding n createComputed_unfold append_Nil exec_Set S3(1) by simp
  moreover have "SignalNode_peek ?sg (execute_leave ?e (currentEffect st) S3) = ?v"
    using S3(2)
    by (simp add: SignalNode_peek_def execute_leave_def Let_def upd_effect_def split: option.splits)
  moreover have "invocations (execute_leave ?e (currentEffect st) S3) = invocations st @ [?e]"
    using S3(3) S1(2) by (simp add: execute_leave_simps)
  moreover have "?v = expr_value f ((signal_values st)(?sg := Undefined))"
    by (simp add: eval_value computed_entered_simps)
  ultimately show ?thesis by simp
qed

subsection \<open>More scenarios\<close>

lemma sum_effect_state:
  "\<exists>st. sum_effect (Num 0) (Num 0) = Some st \<and> coalescing 0 1 0 st \<and>
     \<not> isRunning (effects st 0) \<and> cleanup (effects st 0) = None \<and>
     fn (effects st 0) = [Eval (Add (Get 0) (Get 1))] \<and> invocations st = [0] \<and>
     sn_value (signals st 0) = Num 0 \<and> sn_value (signals st 1) = Num 0"
  by (simp add: sum_effect_def runtime_defs eval_nat_numeral coalescing_def sole_subscriber_def
      List.map_filter_simps)

text \<open>
  The same two signals and an effect whose closure returns a cleanup:
  \<open>() => { a() + b(); return () => batch(() => a.set(7)) }\<close>.
\<close>

definition cleaning_effect :: "runtime option" where
  "cleaning_effect =
     (case createSignal (Num 0) initial_runtime of (a, st1) \<Rightarrow>
        (case createSignal (Num 0) st1 of (b, st2) \<Rightarrow>
           map_option snd
             (createEffect 4 [Eval (Add (Get a) (Get b))] (Some [Batch [Set a (Const (Num 7))]]) st2)))"

text \<open>A signal \<open>s\<close> (number 0) holding 0 and an effect that reads it.\<close>

definition watched_signal :: "runtime option" where
  "watched_signal =
     (case createSignal (Num 0) initial_runtime of (s, st1) \<Rightarrow>
        map_option snd (createEffect 4 [Eval (Get s)] None st1))"

text \<open>\<open>() => { batch(() => s.set(5)); return s() + 1 }\<close>\<close>

definition batched_writer :: "cmd list" where
  "batched_writer = [Batch [Set 0 (Const (Num 5))]]"

lemma watched_signal_state:
  "\<exists>st. watched_signal = Some st \<and> nextSignal st = 1 \<and> nextEffect st = 1 \<and>
     invocations st = [0] \<and> resubscribing 0 0 0 st \<and> batchDepth st = 0 \<and>
     sn_value (signals st 0) = Num 0 \<and>
     well_scoped batched_writer (Add (Get 0) (Const (Num 1))) st \<and>
     (\<exists>s1. run 9 (Exec batched_writer) (computed_entered batched_writer (Add (Get 0) (Const (Num 1))) st)
          = Some s1 \<and> signal_values s1 0 = Num 5)"
  by (simp add: watched_signal_def batched_writer_def runtime_defs eval_nat_numeral
      resubscribing_def well_scoped_def closure_signals_def computed_entered_def
      signal_values_def List.map_filter_simps)

text \<open>
  \<open>() => { s.set(1); return s() }\<close>: the write, outside a batch, notifies the effect that
  reads \<open>s\<close>, and the notification never ends; neither does the creation.
\<close>

lemma createComputed_unbatched_write:
  "\<exists>st. watched_signal = Some st \<and>
     (\<forall>n. createComputed n [Set 0 (Const (Num 1))] (Get 0) st = None)"
proof -
  from watched_signal_state obtain st where st: "watched_signal = Some st" "nextSignal st = 1"
    "nextEffect st = 1" "resubscribing 0 0 0 st" "batchDepth st = 0"
    "sn_value (signals st 0) = Num 0"
    by blast
  let ?S = "computed_entered [Set 0 (Const (Num 1))] (Get 0) st"
  have S: "resubscribing 0 0 0 ?S" "batchDepth ?S = 0" "sn_value (signals ?S 0) \<noteq> Num 1"
    using st(2-6)
    by (simp_all add: resubscribing_def computed_entered_def createSignal_def alloc_Effect_def
        execute_enter_def Let_def upd_effect_def teardown_def new_Effect_def new_SignalNode_def)
  have d: "run i (Set_signal 0 (Num 1)) ?S = None" for i
    using set_resubscribing_diverges[OF S(1,3,2), of i] by (simp add: SignalNode_set_def)
  have "createComputed n [Set 0 (Const (Num 1))] (Get 0) st = None" for n
  proof (cases n)
    case 0
    then show ?thesis
      by (simp add: createComputed_def createSignal_def alloc_Effect_def Effect_execute_def)
  next
    case (Suc k)
    have "run k (Exec ([Set 0 (Const (Num 1))] @ [Set (nextSignal st) (Get 0)])) ?S = None"
    proof (cases k)
      case 0
      then show ?thesis by simp
    next
      case k: (Suc j)
      have "run j (Exec_cmd (Set 0 (Const (Num 1)))) ?S = None"
      proof (cases j)
        case 0
        then show ?thesis by simp
      next
        case (Suc i)
        then show ?thesis
          using d[of i] by (simp add: run_call(2) exec_cmd_body_def del: run.simps)
      qed
      then show ?thesis
        unfolding k by (simp add: exec_Cons del: run.simps)
    qed
    then show ?thesis
      unfolding Suc createComputed_unfold by simp
  qed
  with st(1) show ?thesis by blast
qed

lemma get_is_peek: "fst (SignalNode_get s st) = SignalNode_peek s st"
  by (simp add: SignalNode_get_def SignalNode_peek_def split: option.splits)

section \<open>Compiler: tokens and the lexer (compiler/lexer.ts)\<close>

datatype TokenType =
    COMPONENT | STATE | COMPUTED | EFFECT | ON | ANIMATE | WHEN | EACH | SLOT | EMIT
  | ROLE | LABEL | DESCRIBE | SPACE | STYLE
  | IDENTIFIER | STRING | NUMBER | BOOLEAN
  | LBRACE | RBRACE | LPAREN | RPAREN | LBRACKET | RBRACKET | COLON | SEMICOLON | COMMA
  | DOT | ARROW | EQUALS | PLUS | MINUS | STAR | SLASH | BANG | LT | GT | LE | GE | EQ | NE
  | AND | OR | QUESTION
  | NEWLINE | INDENT | DEDENT | EOF | ILLEGAL
  | INHERITED

record token =
  ttype :: TokenType
  tvalue :: string
  tline :: nat
  tcolumn :: nat

record diag =
  message :: string
  dline :: nat
  dcolumn :: nat

definition KEYWORDS :: "(string \<times> TokenType) list" where
  "KEYWORDS =
     [(''component'', COMPONENT), (''state'', STATE), (''computed'', COMPUTED),
      (''effect'', EFFECT), (''on'', ON), (''animate'', ANIMATE), (''when'', WHEN),
      (''each'', EACH), (''slot'', SLOT), (''emit'', EMIT), (''role'', ROLE),
      (''label'', LABEL), (''describe'', DESCRIBE), (''space'', SPACE), (''style'', STYLE),
      (''true'', BOOLEAN), (''false'', BOOLEAN)]"

definition Object_prototype :: "string list" where
  "Object_prototype =
     [''constructor'', ''hasOwnProperty'', ''isPrototypeOf'', ''propertyIsEnumerable'',
      ''toLocaleString'', ''toString'', ''valueOf'', ''__proto__'', ''__defineGetter__'',
      ''__defineSetter__'', ''__lookupGetter__'', ''__lookupSetter__'']"

definition keyword_type :: "string \<Rightarrow> TokenType" where
  "keyword_type v =
     (case map_of KEYWORDS v of
        Some t \<Rightarrow> t
      | None \<Rightarrow> if v \<in> set Object_prototype then INHERITED else IDENTIFIER)"

record lexer =
  input :: string
  line :: nat
  column :: nat
  indentStack :: "nat list"
  lex_tokens :: "token list"
  lex_errors :: "diag list"

definition new_Lexer :: "string \<Rightarrow> lexer" where
  "new_Lexer src =
     \<lparr>input = src, line = 1, column = 1, indentStack = [0], lex_tokens = [], lex_errors = []\<rparr>"

definition isLetter :: "char \<Rightarrow> bool" where
  "isLetter c =
     (let n = (of_char c :: nat) in (97 \<le> n \<and> n \<le> 122) \<or> (65 \<le> n \<and> n \<le> 90))"

definition isDigit :: "char \<Rightarrow> bool" where
  "isDigit c = (let n = (of_char c :: nat) in 48 \<le> n \<and> n \<le> 57)"

definition isAlphanumeric :: "char \<Rightarrow> bool" where
  "isAlphanumeric c = (isLetter c \<or> isDigit c)"

definition Lexer_advance :: "lexer \<Rightarrow> lexer" where
  "Lexer_advance st = st\<lparr>input := tl (input st), column := column st + 1\<rparr>"

definition consumed :: "string \<Rightarrow> lexer \<Rightarrow> lexer" where
  "consumed rest st =
     st\<lparr>input := rest, column := column st + (length (input st) - length rest)\<rparr>"

definition addTokenAt :: "TokenType \<Rightarrow> string \<Rightarrow> nat \<Rightarrow> lexer \<Rightarrow> lexer" where
  "addTokenAt ty v col st =
     st\<lparr>lex_tokens := lex_tokens st @ [\<lparr>ttype = ty, tvalue = v, tline = line st, tcolumn = col\<rparr>]\<rparr>"

definition addToken :: "TokenType \<Rightarrow> string \<Rightarrow> lexer \<Rightarrow> lexer" where
  "addToken ty v st = addTokenAt ty v (column st) st"

definition addError :: "string \<Rightarrow> nat \<Rightarrow> lexer \<Rightarrow> lexer" where
  "addError msg col st =
     st\<lparr>lex_errors := lex_errors st @ [\<lparr>message = msg, dline = line st, dcolumn = col\<rparr>]\<rparr>"

definition isBlank :: "char \<Rightarrow> bool" where
  "isBlank c = (c = CHR '' '' \<or> c = CHR 0x09 \<or> c = CHR 0x0D)"

definition skipWhitespaceExceptNewline :: "lexer \<Rightarrow> lexer" where
  "skipWhitespaceExceptNewline st = consumed (dropWhile isBlank (input st)) st"

definition skipComment :: "lexer \<Rightarrow> lexer" where
  "skipComment st = consumed (dropWhile (\<lambda>c. c \<noteq> CHR 0x0A) (input st)) st"

definition isIndent :: "char \<Rightarrow> bool" where
  "isIndent c = (c = CHR '' '' \<or> c = CHR 0x09)"

definition measureIndent :: "lexer \<Rightarrow> nat \<times> lexer" where
  "measureIndent st =
     (sum_list (map (\<lambda>c. if c = CHR '' '' then 1 else 4) (takeWhile isIndent (input st))),
      consumed (dropWhile isIndent (input st)) st)"

fun dedent :: "nat \<Rightarrow> nat list \<Rightarrow> nat list \<times> nat" where
  "dedent w (t # u # below) =
     (if w < t then (case dedent w (u # below) of (s, k) \<Rightarrow> (s, Suc k))
      else (t # u # below, 0))"
| "dedent w s = (s, 0)"

definition handleNewline :: "lexer \<Rightarrow> lexer" where
  "handleNewline st =
     (let st1 = addToken NEWLINE [CHR 0x0A] st;
          st2 = (Lexer_advance st1)\<lparr>line := line st1 + 1, column := 1\<rparr>
      in case measureIndent st2 of (indentLevel, st3) \<Rightarrow>
        (let currentIndent = hd (indentStack st3) in
         if indentLevel > currentIndent then
           addToken INDENT [] (st3\<lparr>indentStack := indentLevel # indentStack st3\<rparr>)
         else if indentLevel < currentIndent then
           (case dedent indentLevel (indentStack st3) of (s, k) \<Rightarrow>
              (let st4 = ((addToken DEDENT [] ^^ k) st3)\<lparr>indentStack := s\<rparr> in
               if hd s \<noteq> indentLevel then
                 addError ''Indentation error: inconsistent indentation'' (column st4) st4
               else st4))
         else st3))"

definition isIdentifierPart :: "char \<Rightarrow> bool" where
  "isIdentifierPart c = (isAlphanumeric c \<or> c = CHR ''_'')"

definition readIdentifierOrKeyword :: "lexer \<Rightarrow> lexer" where
  "readIdentifierOrKeyword st =
     (let v = takeWhile isIdentifierPart (input st);
          st1 = consumed (dropWhile isIdentifierPart (input st)) st
      in addTokenAt (keyword_type v) v (column st) st1)"

definition readNumber :: "lexer \<Rightarrow> lexer" where
  "readNumber st =
     (let whole = takeWhile isDigit (input st);
          rest = dropWhile isDigit (input st);
          (v, rest') =
            (case rest of
               c # cs \<Rightarrow>
                 if c = CHR ''.''
                 then (whole @ ''.'' @ takeWhile isDigit cs, dropWhile isDigit cs)
                 else (whole, rest)
             | [] \<Rightarrow> (whole, rest))
      in addTokenAt NUMBER v (column st) (consumed rest' st))"

fun unescape :: "char \<Rightarrow> char" where
  "unescape c =
     (if c = CHR ''n'' then CHR 0x0A
      else if c = CHR ''t'' then CHR 0x09
      else if c = CHR ''r'' then CHR 0x0D
      else c)"

fun string_body :: "char \<Rightarrow> bool \<Rightarrow> string \<Rightarrow> string \<Rightarrow> string \<times> string \<times> bool" where
  "string_body quote escaped v [] = (v, [], False)"
| "string_body quote escaped v (c # cs) =
     (if escaped then string_body quote False (v @ [unescape c]) cs
      else if c = CHR 0x5C then string_body quote True v cs
      else if c = quote then (v, cs, True)
      else string_body quote False (v @ [c]) cs)"

definition readString :: "char \<Rightarrow> lexer \<Rightarrow> lexer" where
  "readString quote st =
     (case string_body quote False [] (tl (input st)) of
        (v, rest, closed) \<Rightarrow>
          if closed then addTokenAt STRING v (column st) (consumed rest st)
          else addError ''Unterminated string'' (column st) (consumed rest st))"

definition twoCharOps :: "(string \<times> TokenType) list" where
  "twoCharOps =
     [(''=='', EQ), (''!='', NE), (''<='', LE), (''>='', GE), (''&&'', AND), (''||'', OR),
      (''=>'', ARROW)]"

definition singleCharOps :: "(string \<times> TokenType) list" where
  "singleCharOps =
     [(''{'', LBRACE), (''}'', RBRACE), (''('', LPAREN), ('')'', RPAREN), (''['', LBRACKET),
      ('']'', RBRACKET), ('':'', COLON), ('';'', SEMICOLON), ('','', COMMA), (''.'', DOT),
      (''='', EQUALS), (''+'', PLUS), (''-'', MINUS), (''*'', STAR), (''/'', SLASH),
      (''!'', BANG), (''<'', LT), (''>'', GT), (''?'', QUESTION)]"

definition readOperator :: "lexer \<Rightarrow> lexer option" where
  "readOperator st =
     (let twoChar = take 2 (input st); char = take 1 (input st) in
      case map_of twoCharOps twoChar of
        Some ty \<Rightarrow> Some (addTokenAt ty twoChar (column st) (Lexer_advance (Lexer_advance st)))
      | None \<Rightarrow>
          (case map_of singleCharOps char of
             Some ty \<Rightarrow> Some (addTokenAt ty char (column st) (Lexer_advance st))
           | None \<Rightarrow> None))"

definition scan_step :: "lexer \<Rightarrow> lexer" where
  "scan_step st =
     (let char = hd (input st) in
      if char = CHR 0x0A then handleNewline st
      else if char = CHR ''#'' then skipComment st
      else if isLetter char \<or> char = CHR ''_'' then readIdentifierOrKeyword st
      else if isDigit char then readNumber st
      else if char = CHR 0x22 \<or> char = CHR 0x27 then readString char st
      else
        (case readOperator st of
           Some st1 \<Rightarrow> st1
         | None \<Rightarrow> Lexer_advance (addError (''Illegal character: '' @ [char]) (column st) st)))"

lemma length_dropWhile_le': "length (dropWhile P xs) \<le> length xs"
  by (induction xs) auto

lemma string_body_length: "string_body q e v cs = (v', rest, b) \<Longrightarrow> length rest \<le> length cs"
  by (induction q e v cs rule: string_body.induct) (auto split: if_splits)

lemma funpow_addToken_input: "input ((addToken ty v ^^ k) st) = input st"
  by (induction k) (simp_all add: addToken_def addTokenAt_def)

lemma handleNewline_shorter: "input st \<noteq> [] \<Longrightarrow> length (input (handleNewline st)) < length (input st)"
  by (cases "input st")
     (auto simp: handleNewline_def Let_def measureIndent_def consumed_def addToken_def
        addTokenAt_def Lexer_advance_def addError_def funpow_addToken_input
        split: prod.splits intro: le_imp_less_Suc length_dropWhile_le')

lemma dropWhile_shorter: "P c \<Longrightarrow> length (dropWhile P (c # cs)) < Suc (length cs)"
  by (simp add: le_imp_less_Suc length_dropWhile_le')

lemma skipComment_shorter:
  "input st = c # cs \<Longrightarrow> c = CHR ''#'' \<Longrightarrow> length (input (skipComment st)) < length (input st)"
  by (simp add: skipComment_def consumed_def le_imp_less_Suc length_dropWhile_le')

lemma readIdentifierOrKeyword_shorter:
  "input st = c # cs \<Longrightarrow> isLetter c \<or> c = CHR ''_'' \<Longrightarrow>
   length (input (readIdentifierOrKeyword st)) < length (input st)"
  by (auto simp: readIdentifierOrKeyword_def Let_def consumed_def addTokenAt_def
      isIdentifierPart_def isAlphanumeric_def le_imp_less_Suc length_dropWhile_le')

lemma readNumber_shorter:
  "input st = c # cs \<Longrightarrow> isDigit c \<Longrightarrow> length (input (readNumber st)) < length (input st)"
proof -
  assume a: "input st = c # cs" "isDigit c"
  have 1: "length (dropWhile isDigit cs) \<le> length cs" by (rule length_dropWhile_le')
  have 2: "\<And>x xs. dropWhile isDigit cs = x # xs \<Longrightarrow> length (dropWhile isDigit xs) < Suc (length cs)"
  proof -
    fix x xs assume "dropWhile isDigit cs = x # xs"
    with 1 have "Suc (length xs) \<le> length cs" by simp
    moreover have "length (dropWhile isDigit xs) \<le> length xs" by (rule length_dropWhile_le')
    ultimately show "length (dropWhile isDigit xs) < Suc (length cs)" by simp
  qed
  show ?thesis
    using a 1 2
    by (auto simp: readNumber_def Let_def consumed_def addTokenAt_def le_imp_less_Suc
        split: list.splits)
qed

lemma readString_shorter:
  "input st = c # cs \<Longrightarrow> length (input (readString q st)) < length (input st)"
  by (auto simp: readString_def consumed_def addTokenAt_def addError_def le_imp_less_Suc
      split: prod.splits dest!: string_body_length)

lemma readOperator_shorter:
  "input st = c # cs \<Longrightarrow> readOperator st = Some st1 \<Longrightarrow> length (input st1) < length (input st)"
  by (cases cs)
     (auto simp: readOperator_def Let_def addTokenAt_def Lexer_advance_def split: option.splits)

lemma scan_step_shorter:
  assumes "input st \<noteq> []"
  shows "length (input (scan_step st)) < length (input st)"
proof -
  from assms obtain c cs where i: "input st = c # cs" by (cases "input st") auto
  show ?thesis
    using i handleNewline_shorter[OF assms] skipComment_shorter[OF i]
      readIdentifierOrKeyword_shorter[OF i] readNumber_shorter[OF i]
      readString_shorter[OF i, of c] readOperator_shorter[OF i]
    by (simp add: scan_step_def Let_def Lexer_advance_def addError_def split: option.splits)
qed

function scan :: "lexer \<Rightarrow> lexer" where
  "scan st =
     (if input st = [] then st
      else
        (let st1 = skipWhitespaceExceptNewline st in
         if input st1 = [] then st1 else scan (scan_step st1)))"
  by pat_completeness auto
termination
proof (relation "measure (\<lambda>st. length (input st))")
  fix st st1 :: lexer
  assume a: "input st \<noteq> []" "st1 = skipWhitespaceExceptNewline st" "input st1 \<noteq> []"
  from scan_step_shorter[OF a(3)]
  have "length (input (scan_step st1)) < length (input st1)" .
  also have "\<dots> \<le> length (input st)"
    using a(2) by (simp add: skipWhitespaceExceptNewline_def consumed_def length_dropWhile_le')
  finally show "(scan_step st1, st) \<in> measure (\<lambda>st. length (input st))" by simp
qed simp

definition tokenize :: "string \<Rightarrow> token list \<times> diag list" where
  "tokenize src =
     (let st = scan (new_Lexer src);
          st1 = (addToken DEDENT [] ^^ (length (indentStack st) - 1)) st;
          st2 = addToken EOF [] st1
      in (lex_tokens st2, lex_errors st2))"

section \<open>Compiler: the syntax tree (compiler/ast.ts)\<close>

text \<open>
  A number literal keeps its text: its value is \<open>parseFloat\<close> of it. Every node ends
  with its line and column.
\<close>

datatype LiteralValue = StringValue string | NumberValue string | BooleanValue bool

datatype Expression =
    Identifier string nat nat
  | Literal LiteralValue string nat nat
  | BinaryExpression string Expression Expression nat nat
  | UnaryExpression string Expression nat nat
  | CallExpression Expression "Expression list" nat nat
  | MemberExpression Expression Expression bool nat nat
  | ArrayExpression "Expression list" nat nat
  | ArrowFunction "string list" Expression nat nat
  | ConditionalExpression Expression Expression Expression nat nat

datatype StateDeclaration =
  StateDeclaration (sd_name: string) (initialValue: Expression) (sd_line: nat) (sd_column: nat)

datatype ComputedDeclaration =
  ComputedDeclaration (cd_name: string) (cd_dependencies: "string list") (cd_expression: Expression)
    (cd_line: nat) (cd_column: nat)

text \<open>The parser leaves the body of an effect empty.\<close>

datatype EffectDeclaration =
  EffectDeclaration (ed_dependencies: "string list") (ed_line: nat) (ed_column: nat)

datatype EventHandler =
  EventHandler (event: string) (handler: Expression) (eh_line: nat) (eh_column: nat)

datatype AnimationDeclaration =
  AnimationDeclaration (trigger: string) (an_properties: "(string \<times> Expression) list")
    (duration: nat) (easing: string) (an_line: nat) (an_column: nat)

text \<open>
  A style rule's properties are an object filled by assignment: keys in the order of
  their first assignment, each with the value assigned last.
\<close>

datatype StyleRule =
  StyleRule (selector: string) (sr_properties: "(string \<times> (string + Expression)) list")

datatype StyleNode = StyleNode (rules: "StyleRule list") (st_line: nat) (st_column: nat)

datatype ElementNode =
  ElementNode (tag: string) (attributes: "(string \<times> Expression) list") (children: "Child list")
    (el_role: "string option") (ariaLabel: "string option") (el_line: nat) (el_column: nat)
and Child =
    ElementChild ElementNode
  | TextNode string "Expression list" nat nat
  | ConditionalNode Expression "Child list" "Child list option" nat nat
  | LoopNode string "string option" Expression "Child list" nat nat
  | SlotNode nat nat

record AccessibilityInfo =
  a_role :: "string option"
  a_label :: "string option"
  a_description :: "string option"

record ComponentNode =
  c_name :: string
  c_states :: "StateDeclaration list"
  c_computed :: "ComputedDeclaration list"
  c_effects :: "EffectDeclaration list"
  c_handlers :: "EventHandler list"
  c_animations :: "AnimationDeclaration list"
  c_styles :: "StyleNode list"
  c_body :: "ElementNode list"
  accessibility :: AccessibilityInfo
  c_line :: nat
  c_column :: nat

record SpaceNode =
  s_name :: string
  s_states :: "StateDeclaration list"
  s_computed :: "ComputedDeclaration list"
  s_effects :: "EffectDeclaration list"
  s_handlers :: "EventHandler list"
  s_line :: nat
  s_column :: nat

record Program =
  components :: "ComponentNode list"
  spaces :: "SpaceNode list"
  styles :: "StyleNode list"

section \<open>Compiler: the parser (compiler/parser.ts)\<close>

record parser =
  tokens :: "token list"
  current :: nat
  errors :: "diag list"

definition structural :: "TokenType \<Rightarrow> bool" where
  "structural t = (t = NEWLINE \<or> t = INDENT \<or> t = DEDENT)"

definition new_Parser :: "token list \<Rightarrow> parser" where
  "new_Parser toks =
     \<lparr>tokens = filter (\<lambda>t. \<not> structural (ttype t)) toks, current = 0, errors = []\<rparr>"

definition peek :: "parser \<Rightarrow> token" where
  "peek st = tokens st ! current st"

definition previous :: "parser \<Rightarrow> token" where
  "previous st = tokens st ! (current st - 1)"

definition isAtEnd :: "parser \<Rightarrow> bool" where
  "isAtEnd st = (ttype (peek st) = EOF)"

definition check :: "TokenType \<Rightarrow> parser \<Rightarrow> bool" where
  "check ty st = (if isAtEnd st then False else ttype (peek st) = ty)"

definition checkNext :: "TokenType \<Rightarrow> parser \<Rightarrow> bool" where
  "checkNext ty st =
     (if current st + 1 \<ge> length (tokens st) then False
      else ttype (tokens st ! (current st + 1)) = ty)"

definition advance :: "parser \<Rightarrow> parser" where
  "advance st = (if \<not> isAtEnd st then st\<lparr>current := current st + 1\<rparr> else st)"

definition error :: "string \<Rightarrow> parser \<Rightarrow> parser" where
  "error msg st =
     st\<lparr>errors := errors st @
        [\<lparr>message = msg, dline = tline (peek st), dcolumn = tcolumn (peek st)\<rparr>]\<rparr>"

text \<open>\<open>match(...types)\<close>: the types are tried in order; at most one can be the current one.\<close>

definition match :: "TokenType list \<Rightarrow> parser \<Rightarrow> bool \<times> parser" where
  "match tys st =
     (if list_ex (\<lambda>ty. check ty st) tys then (True, advance st) else (False, st))"

definition consume :: "TokenType \<Rightarrow> string \<Rightarrow> parser \<Rightarrow> token \<times> parser" where
  "consume ty msg st =
     (if check ty st then (let st1 = advance st in (previous st1, st1))
      else (let st1 = error msg st in (peek st1, st1)))"

type_synonym 'a parsing = "parser \<Rightarrow> ('a \<times> parser) option"

subsection \<open>Expressions\<close>

text \<open>
  The parsing functions take fuel (\<open>None\<close>: no result within the fuel), which bounds the
  nesting and the number of loop steps. \<open>pe\<close> is parseExpression for the nested
  expressions, with less fuel. \<open>if (this.match(T))\<close> on one type is written
  \<open>if check T st\<close> with \<open>advance st\<close> in the branch.

  \<open>do { xs.push(this.parseExpression()) } while (this.match(COMMA))\<close>:
\<close>

primrec expression_list :: "nat \<Rightarrow> Expression parsing \<Rightarrow> Expression list \<Rightarrow> Expression list parsing" where
  "expression_list 0 pe acc st = None"
| "expression_list (Suc k) pe acc st =
     do {
       (e, st1) \<leftarrow> pe st;
       if check COMMA st1 then expression_list k pe (acc @ [e]) (advance st1)
       else Some (acc @ [e], st1)
     }"

definition parsePrimary :: "nat \<Rightarrow> Expression parsing \<Rightarrow> Expression parsing" where
  "parsePrimary n pe st =
     (let token = peek st in
      if check NUMBER st then
        (let st1 = advance st in
         Some (Literal (NumberValue (tvalue (previous st1))) (tvalue (previous st1))
                 (tline token) (tcolumn token), st1))
      else if check STRING st then
        (let st1 = advance st in
         Some (Literal (StringValue (tvalue (previous st1))) (tvalue (previous st1))
                 (tline token) (tcolumn token), st1))
      else if check BOOLEAN st then
        (let st1 = advance st in
         Some (Literal (BooleanValue (tvalue (previous st1) = ''true'')) (tvalue (previous st1))
                 (tline token) (tcolumn token), st1))
      else if check IDENTIFIER st then
        (let st1 = advance st in
         Some (Identifier (tvalue (previous st1)) (tline token) (tcolumn token), st1))
      else if check LBRACKET st then
        do {
          (elements, st2) \<leftarrow>
            (if check RBRACKET (advance st) then Some ([], advance st)
             else expression_list n pe [] (advance st));
          Some (ArrayExpression elements (tline token) (tcolumn token),
                snd (consume RBRACKET ''Expected ] after array elements'' st2))
        }
      else if check LPAREN st then
        do {
          (expr, st2) \<leftarrow> pe (advance st);
          Some (expr, snd (consume RPAREN ''Expected ) after expression'' st2))
        }
      else
        Some (Literal (NumberValue ''0'') ''0'' (tline token) (tcolumn token),
              error ''Expected expression'' st))"

primrec postfix_loop :: "nat \<Rightarrow> Expression parsing \<Rightarrow> Expression \<Rightarrow> Expression parsing" where
  "postfix_loop 0 pe expr st = None"
| "postfix_loop (Suc k) pe expr st =
     (if check DOT st then
        (case consume IDENTIFIER ''Expected property name'' (advance st) of
           (property, st2) \<Rightarrow>
             postfix_loop k pe
               (MemberExpression expr
                  (Identifier (tvalue property) (tline property) (tcolumn property))
                  False (tline property) (tcolumn property)) st2)
      else if check LBRACKET st then
        do {
          (property, st2) \<leftarrow> pe (advance st);
          let st3 = snd (consume RBRACKET ''Expected ] after computed property'' st2);
          postfix_loop k pe
            (MemberExpression expr property True (tline (previous st3)) (tcolumn (previous st3)))
            st3
        }
      else if check LPAREN st then
        do {
          (args, st2) \<leftarrow>
            (if check RPAREN (advance st) then Some ([], advance st)
             else expression_list k pe [] (advance st));
          let st3 = snd (consume RPAREN ''Expected ) after arguments'' st2);
          postfix_loop k pe
            (CallExpression expr args (tline (previous st3)) (tcolumn (previous st3))) st3
        }
      else Some (expr, st))"

definition parsePostfix :: "nat \<Rightarrow> Expression parsing \<Rightarrow> Expression parsing" where
  "parsePostfix n pe st = do { (expr, st1) \<leftarrow> parsePrimary n pe st; postfix_loop n pe expr st1 }"

primrec parseUnary :: "nat \<Rightarrow> Expression parsing \<Rightarrow> Expression parsing" where
  "parseUnary 0 pe st = None"
| "parseUnary (Suc k) pe st =
     (case match [BANG, MINUS] st of
        (True, st1) \<Rightarrow>
          do {
            (argument, st2) \<leftarrow> parseUnary k pe st1;
            Some (UnaryExpression (tvalue (previous st1)) argument
                    (tline (previous st1)) (tcolumn (previous st1)), st2)
          }
      | (False, _) \<Rightarrow> parsePostfix k pe st)"

text \<open>
  The loop of the six binary levels:
  \<open>while (this.match(...ops)) { operator = previous(); right = operand(); left = BINARY }\<close>.
\<close>

primrec binary_loop :: "nat \<Rightarrow> TokenType list \<Rightarrow> Expression parsing \<Rightarrow> Expression \<Rightarrow> Expression parsing" where
  "binary_loop 0 ops operand left st = None"
| "binary_loop (Suc k) ops operand left st =
     (case match ops st of
        (True, st1) \<Rightarrow>
          do {
            (right, st2) \<leftarrow> operand st1;
            binary_loop k ops operand
              (BinaryExpression (tvalue (previous st1)) left right
                 (tline (previous st1)) (tcolumn (previous st1))) st2
          }
      | (False, _) \<Rightarrow> Some (left, st))"

definition parseMultiplicative :: "nat \<Rightarrow> Expression parsing \<Rightarrow> Expression parsing" where
  "parseMultiplicative n pe st =
     do { (left, st1) \<leftarrow> parseUnary n pe st;
          binary_loop n [STAR, SLASH] (parseUnary n pe) left st1 }"

definition parseAdditive :: "nat \<Rightarrow> Expression parsing \<Rightarrow> Expression parsing" where
  "parseAdditive n pe st =
     do { (left, st1) \<leftarrow> parseMultiplicative n pe st;
          binary_loop n [PLUS, MINUS] (parseMultiplicative n pe) left st1 }"

definition parseComparison :: "nat \<Rightarrow> Expression parsing \<Rightarrow> Expression parsing" where
  "parseComparison n pe st =
     do { (left, st1) \<leftarrow> parseAdditive n pe st;
          binary_loop n [LT, GT, LE, GE] (parseAdditive n pe) left st1 }"

definition parseEquality :: "nat \<Rightarrow> Expression parsing \<Rightarrow> Expression parsing" where
  "parseEquality n pe st =
     do { (left, st1) \<leftarrow> parseComparison n pe st;
          binary_loop n [EQ, NE] (parseComparison n pe) left st1 }"

definition parseLogicalAnd :: "nat \<Rightarrow> Expression parsing \<Rightarrow> Expression parsing" where
  "parseLogicalAnd n pe st =
     do { (left, st1) \<leftarrow> parseEquality n pe st;
          binary_loop n [AND] (parseEquality n pe) left st1 }"

definition parseLogicalOr :: "nat \<Rightarrow> Expression parsing \<Rightarrow> Expression parsing" where
  "parseLogicalOr n pe st =
     do { (left, st1) \<leftarrow> parseLogicalAnd n pe st;
          binary_loop n [OR] (parseLogicalAnd n pe) left st1 }"

primrec parseTernary :: "nat \<Rightarrow> Expression parsing" where
  "parseTernary 0 st = None"
| "parseTernary (Suc n) st =
     do {
       (expr, st1) \<leftarrow> parseLogicalOr n (parseTernary n) st;
       if check QUESTION st1 then
         do {
           (consequent, st3) \<leftarrow> parseTernary n (advance st1);
           (alternate, st5) \<leftarrow>
             parseTernary n (snd (consume COLON ''Expected : in conditional expression'' st3));
           Some (ConditionalExpression expr consequent alternate
                   (tline (previous (advance st1))) (tcolumn (previous (advance st1))), st5)
         }
       else Some (expr, st1)
     }"

definition parseExpression :: "nat \<Rightarrow> Expression parsing" where
  "parseExpression n = parseTernary n"

subsection \<open>Declarations\<close>

definition parseState :: "nat \<Rightarrow> StateDeclaration parsing" where
  "parseState n st =
     (let token = previous st;
          (name, st1) = consume IDENTIFIER ''Expected state name'' st;
          st2 = snd (consume EQUALS ''Expected = after state name'' st1)
      in do {
        (initialValue, st3) \<leftarrow> parseExpression n st2;
        Some (StateDeclaration (tvalue name) initialValue (tline token) (tcolumn token), st3)
      })"

text \<open>
  extractDependencies: the identifiers of an expression, through binary operands, member
  objects, callees and arguments only; \<open>[...new Set(deps)]\<close> keeps first occurrences.
\<close>

fun walk :: "Expression \<Rightarrow> string list" where
  "walk (Identifier name l c) = [name]"
| "walk (BinaryExpression operator left right l c) = walk left @ walk right"
| "walk (MemberExpression object property computed l c) = walk object"
| "walk (CallExpression callee args l c) = walk callee @ concat (map walk args)"
| "walk (Literal v raw l c) = []"
| "walk (UnaryExpression operator argument l c) = []"
| "walk (ArrayExpression elements l c) = []"
| "walk (ArrowFunction params body l c) = []"
| "walk (ConditionalExpression test consequent alternate l c) = []"

definition extractDependencies :: "Expression \<Rightarrow> string list" where
  "extractDependencies expr = rev (remdups (rev (walk expr)))"

definition parseComputed :: "nat \<Rightarrow> ComputedDeclaration parsing" where
  "parseComputed n st =
     (let token = previous st;
          (name, st1) = consume IDENTIFIER ''Expected computed name'' st;
          st2 = snd (consume EQUALS ''Expected = after computed name'' st1)
      in do {
        (expression, st3) \<leftarrow> parseExpression n st2;
        Some (ComputedDeclaration (tvalue name) (extractDependencies expression) expression
                (tline token) (tcolumn token), st3)
      })"

text \<open>
  \<open>do { x = this.consume(IDENTIFIER, msg); xs.push(x.value) } while (this.match(COMMA))\<close>,
  in parseEffect and parseArrowFunction.
\<close>

primrec name_list :: "nat \<Rightarrow> string \<Rightarrow> string list \<Rightarrow> string list parsing" where
  "name_list 0 msg acc st = None"
| "name_list (Suc k) msg acc st =
     (case consume IDENTIFIER msg st of
        (tok, st1) \<Rightarrow>
          if check COMMA st1 then name_list k msg (acc @ [tvalue tok]) (advance st1)
          else Some (acc @ [tvalue tok], st1))"

definition parseEffect :: "nat \<Rightarrow> EffectDeclaration parsing" where
  "parseEffect n st =
     (let token = previous st;
          st1 = snd (consume LPAREN ''Expected ( after effect'' st)
      in do {
        (deps, st2) \<leftarrow>
          (if \<not> check RPAREN st1 then name_list n ''Expected dependency name'' [] st1
           else Some ([], st1));
        let st3 = snd (consume RPAREN ''Expected ) after dependencies'' st2);
        let st4 = snd (consume ARROW ''Expected => after effect dependencies'' st3);
        Some (EffectDeclaration deps (tline token) (tcolumn token), st4)
      })"

definition parseArrowFunction :: "nat \<Rightarrow> Expression parsing" where
  "parseArrowFunction n st =
     (let token = peek st in
      do {
        (params, st2) \<leftarrow>
          (if check LPAREN st then
             do {
               (ps, st1) \<leftarrow>
                 (if \<not> check RPAREN (advance st)
                  then name_list n ''Expected parameter name'' [] (advance st)
                  else Some ([], advance st));
               Some (ps, snd (consume RPAREN ''Expected ) after parameters'' st1))
             }
           else Some ([], st));
        (body, st3) \<leftarrow> parseExpression n st2;
        Some (ArrowFunction params body (tline token) (tcolumn token), st3)
      })"

definition parseEventHandler :: "nat \<Rightarrow> EventHandler parsing" where
  "parseEventHandler n st =
     (let token = previous st;
          (event, st1) = consume IDENTIFIER ''Expected event name'' st;
          st2 = snd (consume ARROW ''Expected => after event name'' st1)
      in do {
        (handler, st3) \<leftarrow> parseArrowFunction n st2;
        Some (EventHandler (tvalue event) handler (tline token) (tcolumn token), st3)
      })"

primrec animation_properties :: "nat \<Rightarrow> (string \<times> Expression) list \<Rightarrow> (string \<times> Expression) list parsing" where
  "animation_properties 0 acc st = None"
| "animation_properties (Suc k) acc st =
     (if \<not> isAtEnd st \<and> check IDENTIFIER st then
        (let propName = tvalue (previous (advance st));
             st2 = snd (consume COLON ''Expected : after property name'' (advance st))
         in do {
           (to, st3) \<leftarrow> parseExpression k st2;
           if check COMMA st3 then animation_properties k (acc @ [(propName, to)]) (advance st3)
           else Some (acc @ [(propName, to)], st3)
         })
      else Some (acc, st))"

definition parseAnimation :: "nat \<Rightarrow> AnimationDeclaration parsing" where
  "parseAnimation n st =
     (let token = previous st;
          (trigger, st1) = consume IDENTIFIER ''Expected animation trigger'' st;
          st2 = snd (consume COLON ''Expected : after animation trigger'' st1)
      in do {
        (properties, st3) \<leftarrow> animation_properties n [] st2;
        Some (AnimationDeclaration (tvalue trigger) properties 300 ''ease-out''
                (tline token) (tcolumn token), st3)
      })"

definition parseStringValue :: "parser \<Rightarrow> string \<times> parser" where
  "parseStringValue st =
     (case consume STRING ''Expected string value'' st of (token, st1) \<Rightarrow> (tvalue token, st1))"

subsection \<open>Style blocks\<close>

text \<open>\<open>properties[propName] = v\<close> on the object of a rule.\<close>

fun assign :: "'k \<Rightarrow> 'v \<Rightarrow> ('k \<times> 'v) list \<Rightarrow> ('k \<times> 'v) list" where
  "assign k v [] = [(k, v)]"
| "assign k v ((k', v') # kvs) = (if k' = k then (k, v) # kvs else (k', v') # assign k v kvs)"

primrec style_properties :: "nat \<Rightarrow> (string \<times> (string + Expression)) list \<Rightarrow> (string \<times> (string + Expression)) list parsing" where
  "style_properties 0 properties st = None"
| "style_properties (Suc k) properties st =
     (if \<not> isAtEnd st \<and> check IDENTIFIER st then
        (let propName = tvalue (previous (advance st));
             st2 = snd (consume COLON ''Expected : after property name'' (advance st))
         in if check STRING st2 then
              style_properties k (assign propName (Inl (tvalue (previous (advance st2)))) properties)
                (advance st2)
            else if check NUMBER st2 then
              style_properties k (assign propName (Inl (tvalue (previous (advance st2)))) properties)
                (advance st2)
            else
              do {
                (e, st3) \<leftarrow> parseExpression k st2;
                style_properties k (assign propName (Inr e) properties) st3
              })
      else Some (properties, st))"

text \<open>
  The rule loop of parseStyle. None of its three \<open>consume\<close> calls has to advance, so a
  token that is no dot, identifier or colon is met again by the next step.
\<close>

primrec style_rules :: "nat \<Rightarrow> StyleRule list \<Rightarrow> StyleRule list parsing" where
  "style_rules 0 rs st = None"
| "style_rules (Suc k) rs st =
     (if \<not> isAtEnd st \<and> \<not> check COMPONENT st \<and> \<not> check SPACE st \<and> \<not> check STYLE st then
        (let st1 = snd (consume DOT ''Expected . for class selector'' st);
             (name, st2) = consume IDENTIFIER ''Expected class name'' st1;
             st3 = snd (consume COLON ''Expected : after selector'' st2)
         in do {
           (properties, st4) \<leftarrow> style_properties k [] st3;
           style_rules k (rs @ [StyleRule (''.'' @ tvalue name) properties]) st4
         })
      else Some (rs, st))"

definition parseStyle :: "nat \<Rightarrow> StyleNode option parsing" where
  "parseStyle n st =
     (if \<not> check STYLE st then Some (None, error ''Expected style declaration'' st)
      else
        (let st1 = advance st;
             token = previous st1;
             st2 = snd (consume COLON ''Expected : after style'' st1)
         in do {
           (rules, st3) \<leftarrow> style_rules n [] st2;
           Some (Some (StyleNode rules (tline token) (tcolumn token)), st3)
         }))"

subsection \<open>Elements\<close>

definition isAttributeName :: "token \<Rightarrow> bool" where
  "isAttributeName token =
     (ttype token \<in> {IDENTIFIER, ROLE, LABEL, STYLE, ON, DESCRIBE, SLOT, WHEN, EACH, ANIMATE, SPACE})"

text \<open>\<open>while (this.match(MINUS)) { ... }\<close>: the parts of a hyphenated attribute name.\<close>

primrec attribute_name :: "nat \<Rightarrow> string \<Rightarrow> string parsing" where
  "attribute_name 0 attrName st = None"
| "attribute_name (Suc k) attrName st =
     (if check MINUS st then
        (let st1 = advance st in
         if isAttributeName (peek st1)
         then attribute_name k (attrName @ ''-'' @ tvalue (previous (advance st1))) (advance st1)
         else attribute_name k (attrName @ ''-'')
                (error ''Expected attribute name part after -'' st1))
      else Some (attrName, st))"

primrec element_attributes :: "nat \<Rightarrow> (string \<times> Expression) list \<Rightarrow> (string \<times> Expression) list parsing" where
  "element_attributes 0 attrs st = None"
| "element_attributes (Suc k) attrs st =
     (if isAttributeName (peek st) \<and> \<not> checkNext COLON st then
        do {
          (attrName, st2) \<leftarrow> attribute_name k (tvalue (previous (advance st))) (advance st);
          let st3 = snd (consume EQUALS ''Expected = after attribute name'' st2);
          (attrValue, st4) \<leftarrow> parseExpression k st3;
          element_attributes k (attrs @ [(attrName, attrValue)]) st4
        }
      else Some (attrs, st))"

text \<open>
  parseConditional, parseLoop and parseSlot; \<open>pel\<close> is parseElement for the nested
  element, with less fuel.
\<close>

definition parseConditional :: "nat \<Rightarrow> ElementNode parsing \<Rightarrow> Child parsing" where
  "parseConditional n pel st =
     (let st1 = snd (consume IDENTIFIER ''Expected when'' st);
          token = previous st1
      in do {
        (condition, st2) \<leftarrow> parseExpression n st1;
        let st3 = snd (consume COLON ''Expected : after condition'' st2);
        (consequent, st4) \<leftarrow>
          (if check IDENTIFIER st3
           then do { (element, st') \<leftarrow> pel st3; Some ([ElementChild element], st') }
           else Some ([], st3));
        Some (ConditionalNode condition consequent None (tline token) (tcolumn token), st4)
      })"

definition parseLoop :: "nat \<Rightarrow> ElementNode parsing \<Rightarrow> Child parsing" where
  "parseLoop n pel st =
     (let st1 = snd (consume IDENTIFIER ''Expected each'' st);
          token = previous st1;
          (item, st2) = consume IDENTIFIER ''Expected item name'' st1;
          st3 = snd (consume IDENTIFIER ''Expected in'' st2)
      in do {
        (iterable, st4) \<leftarrow> parseExpression n st3;
        let st5 = snd (consume COLON ''Expected : after iterable'' st4);
        (body, st6) \<leftarrow>
          (if check IDENTIFIER st5
           then do { (element, st') \<leftarrow> pel st5; Some ([ElementChild element], st') }
           else Some ([], st5));
        Some (LoopNode (tvalue item) None iterable body (tline token) (tcolumn token), st6)
      })"

definition parseSlot :: "parser \<Rightarrow> Child \<times> parser" where
  "parseSlot st =
     (let st1 = snd (consume IDENTIFIER ''Expected slot'' st);
          token = previous st1
      in (SlotNode (tline token) (tcolumn token), st1))"

primrec element_children :: "nat \<Rightarrow> ElementNode parsing \<Rightarrow> Child list \<Rightarrow> Child list parsing" where
  "element_children 0 pel kids st = None"
| "element_children (Suc k) pel kids st =
     (if \<not> isAtEnd st \<and> check IDENTIFIER st then
        (if tvalue (peek st) = ''when'' then
           do { (cond, st1) \<leftarrow> parseConditional k pel st;
                element_children k pel (kids @ [cond]) st1 }
         else if tvalue (peek st) = ''each'' then
           do { (loop, st1) \<leftarrow> parseLoop k pel st;
                element_children k pel (kids @ [loop]) st1 }
         else if tvalue (peek st) = ''slot'' then
           (case parseSlot st of (slot, st1) \<Rightarrow> element_children k pel (kids @ [slot]) st1)
         else
           do { (child, st1) \<leftarrow> pel st;
                element_children k pel (kids @ [ElementChild child]) st1 })
      else Some (kids, st))"

primrec parseElement :: "nat \<Rightarrow> ElementNode parsing" where
  "parseElement 0 st = None"
| "parseElement (Suc n) st =
     (let token = peek st;
          (tag, st1) = consume IDENTIFIER ''Expected element tag'' st
      in do {
        (attributes, st2) \<leftarrow> element_attributes n [] st1;
        (children, st3) \<leftarrow>
          (if check COLON st2 then
             (if check STRING (advance st2) then
                (let st' = advance (advance st2); text = previous st' in
                 Some ([TextNode (tvalue text) [] (tline text) (tcolumn text)], st'))
              else element_children n (parseElement n) [] (advance st2))
           else Some ([], st2));
        Some (ElementNode (tvalue tag) attributes children None None (tline token) (tcolumn token),
              st3)
      })"

subsection \<open>Components, spaces and the program\<close>

definition new_Component :: ComponentNode where
  "new_Component =
     \<lparr>c_name = [], c_states = [], c_computed = [], c_effects = [], c_handlers = [],
      c_animations = [], c_styles = [], c_body = [],
      accessibility = \<lparr>a_role = None, a_label = None, a_description = None\<rparr>,
      c_line = 0, c_column = 0\<rparr>"

primrec component_body :: "nat \<Rightarrow> ComponentNode \<Rightarrow> ComponentNode parsing" where
  "component_body 0 c st = None"
| "component_body (Suc k) c st =
     (if \<not> isAtEnd st \<and> \<not> check COMPONENT st then
        (if check STATE st then
           do { (state, st1) \<leftarrow> parseState k (advance st);
                component_body k (c\<lparr>c_states := c_states c @ [state]\<rparr>) st1 }
         else if check COMPUTED st then
           do { (comp, st1) \<leftarrow> parseComputed k (advance st);
                component_body k (c\<lparr>c_computed := c_computed c @ [comp]\<rparr>) st1 }
         else if check EFFECT st then
           do { (effect, st1) \<leftarrow> parseEffect k (advance st);
                component_body k (c\<lparr>c_effects := c_effects c @ [effect]\<rparr>) st1 }
         else if check ON st then
           do { (handler, st1) \<leftarrow> parseEventHandler k (advance st);
                component_body k (c\<lparr>c_handlers := c_handlers c @ [handler]\<rparr>) st1 }
         else if check ANIMATE st then
           do { (animation, st1) \<leftarrow> parseAnimation k (advance st);
                component_body k (c\<lparr>c_animations := c_animations c @ [animation]\<rparr>) st1 }
         else if check STYLE st then
           do { (style, st1) \<leftarrow> parseStyle k st;
                component_body k
                  (case style of None \<Rightarrow> c | Some s \<Rightarrow> c\<lparr>c_styles := c_styles c @ [s]\<rparr>) st1 }
         else if check ROLE st then
           (case parseStringValue (advance st) of
              (v, st1) \<Rightarrow>
                component_body k (c\<lparr>accessibility := (accessibility c)\<lparr>a_role := Some v\<rparr>\<rparr>) st1)
         else if check LABEL st then
           (case parseStringValue (advance st) of
              (v, st1) \<Rightarrow>
                component_body k (c\<lparr>accessibility := (accessibility c)\<lparr>a_label := Some v\<rparr>\<rparr>) st1)
         else if check DESCRIBE st then
           (case parseStringValue (advance st) of
              (v, st1) \<Rightarrow>
                component_body k
                  (c\<lparr>accessibility := (accessibility c)\<lparr>a_description := Some v\<rparr>\<rparr>) st1)
         else if check IDENTIFIER st then
           do { (element, st1) \<leftarrow> parseElement k st;
                component_body k (c\<lparr>c_body := c_body c @ [element]\<rparr>) st1 }
         else component_body k c (advance st))
      else Some (c, st))"

definition parseComponent :: "nat \<Rightarrow> ComponentNode option parsing" where
  "parseComponent n st =
     (if \<not> check COMPONENT st then Some (None, error ''Expected component declaration'' st)
      else
        (let st1 = advance st;
             token = previous st1;
             (name, st2) = consume IDENTIFIER ''Expected component name'' st1;
             st3 = snd (consume COLON ''Expected : after component name'' st2)
         in do {
           (c, st4) \<leftarrow>
             component_body n
               (new_Component\<lparr>c_name := tvalue name, c_line := tline token,
                  c_column := tcolumn token\<rparr>) st3;
           Some (Some c, st4)
         }))"

definition new_Space :: SpaceNode where
  "new_Space =
     \<lparr>s_name = [], s_states = [], s_computed = [], s_effects = [], s_handlers = [],
      s_line = 0, s_column = 0\<rparr>"

primrec space_body :: "nat \<Rightarrow> SpaceNode \<Rightarrow> SpaceNode parsing" where
  "space_body 0 s st = None"
| "space_body (Suc k) s st =
     (if \<not> isAtEnd st \<and> \<not> check COMPONENT st \<and> \<not> check SPACE st then
        (if check STATE st then
           do { (state, st1) \<leftarrow> parseState k (advance st);
                space_body k (s\<lparr>s_states := s_states s @ [state]\<rparr>) st1 }
         else if check COMPUTED st then
           do { (comp, st1) \<leftarrow> parseComputed k (advance st);
                space_body k (s\<lparr>s_computed := s_computed s @ [comp]\<rparr>) st1 }
         else if check EFFECT st then
           do { (effect, st1) \<leftarrow> parseEffect k (advance st);
                space_body k (s\<lparr>s_effects := s_effects s @ [effect]\<rparr>) st1 }
         else if check ON st then
           do { (handler, st1) \<leftarrow> parseEventHandler k (advance st);
                space_body k (s\<lparr>s_handlers := s_handlers s @ [handler]\<rparr>) st1 }
         else space_body k s (advance st))
      else Some (s, st))"

definition parseSpace :: "nat \<Rightarrow> SpaceNode option parsing" where
  "parseSpace n st =
     (if \<not> check SPACE st then Some (None, error ''Expected space declaration'' st)
      else
        (let st1 = advance st;
             token = previous st1;
             (name, st2) = consume IDENTIFIER ''Expected space name'' st1;
             st3 = snd (consume COLON ''Expected : after space name'' st2)
         in do {
           (s, st4) \<leftarrow>
             space_body n
               (new_Space\<lparr>s_name := tvalue name, s_line := tline token, s_column := tcolumn token\<rparr>)
               st3;
           Some (Some s, st4)
         }))"

text \<open>The loop of synchronize, after its first \<open>advance\<close>.\<close>

primrec synchronize_loop :: "nat \<Rightarrow> parser \<Rightarrow> parser option" where
  "synchronize_loop 0 st = None"
| "synchronize_loop (Suc k) st =
     (if \<not> isAtEnd st then
        (if ttype (previous st) = SEMICOLON then Some st
         else if ttype (peek st) \<in> {COMPONENT, SPACE, STATE, COMPUTED, EFFECT} then Some st
         else synchronize_loop k (advance st))
      else Some st)"

definition synchronize :: "nat \<Rightarrow> parser \<Rightarrow> parser option" where
  "synchronize n st = synchronize_loop n (advance st)"

text \<open>
  The loop of parse. Nothing in the parser throws while the token array holds an EOF, so
  the \<open>catch\<close> branch is never taken.
\<close>

primrec parse_loop :: "nat \<Rightarrow> Program \<Rightarrow> Program parsing" where
  "parse_loop 0 p st = None"
| "parse_loop (Suc k) p st =
     (if \<not> isAtEnd st then
        (if check COMPONENT st then
           do { (component, st1) \<leftarrow> parseComponent k st;
                parse_loop k
                  (case component of None \<Rightarrow> p | Some c \<Rightarrow> p\<lparr>components := components p @ [c]\<rparr>)
                  st1 }
         else if check SPACE st then
           do { (space, st1) \<leftarrow> parseSpace k st;
                parse_loop k
                  (case space of None \<Rightarrow> p | Some s \<Rightarrow> p\<lparr>spaces := spaces p @ [s]\<rparr>) st1 }
         else if check STYLE st then
           do { (style, st1) \<leftarrow> parseStyle k st;
                parse_loop k
                  (case style of None \<Rightarrow> p | Some s \<Rightarrow> p\<lparr>styles := styles p @ [s]\<rparr>) st1 }
         else
           do { st1 \<leftarrow> synchronize k (error ''Expected component, space or style declaration'' st);
                parse_loop k p st1 })
      else Some (p, st))"

text \<open>
  parse, on the token array of the constructor. \<open>None\<close>: parse gives no result, either
  because the fuel is used up, or because the array holds no EOF (the source then
  reads past its end, which is a TypeError, unless it loops before).
\<close>

definition parse :: "nat \<Rightarrow> token list \<Rightarrow> (Program option \<times> diag list) option" where
  "parse n toks =
     (let st = new_Parser toks in
      if EOF \<notin> ttype ` set (tokens st) then None
      else
        do {
          (p, st1) \<leftarrow> parse_loop n \<lparr>components = [], spaces = [], styles = []\<rparr> st;
          Some (if components p \<noteq> [] then Some p else None, errors st1)
        })"

section \<open>Compiler: the semantic analyzer (compiler/semantic.ts)\<close>

record analyzer =
  sem_errors :: "diag list"
  sem_warnings :: "diag list"
  declaredVariables :: "string set"

definition push_error :: "string \<Rightarrow> nat \<Rightarrow> nat \<Rightarrow> analyzer \<Rightarrow> analyzer" where
  "push_error msg l c a =
     a\<lparr>sem_errors := sem_errors a @ [\<lparr>message = msg, dline = l, dcolumn = c\<rparr>]\<rparr>"

definition push_warning :: "string \<Rightarrow> nat \<Rightarrow> nat \<Rightarrow> analyzer \<Rightarrow> analyzer" where
  "push_warning msg l c a =
     a\<lparr>sem_warnings := sem_warnings a @ [\<lparr>message = msg, dline = l, dcolumn = c\<rparr>]\<rparr>"

text \<open>A string that is missing or empty is falsy.\<close>

definition falsy :: "string option \<Rightarrow> bool" where
  "falsy s = (s = None \<or> s = Some [])"

definition isText :: "Child \<Rightarrow> bool" where
  "isText child = (case child of TextNode content interpolations l c \<Rightarrow> True | _ \<Rightarrow> False)"

text \<open>
  analyzeElement with analyzeConditional and analyzeLoop; \<open>analyzeNode\<close> is the body of
  their loops over a branch, which looks at elements only.
\<close>

fun analyzeElement :: "ElementNode \<Rightarrow> analyzer \<Rightarrow> analyzer"
  and analyzeChild :: "Child \<Rightarrow> analyzer \<Rightarrow> analyzer"
  and analyzeNode :: "Child \<Rightarrow> analyzer \<Rightarrow> analyzer"
where
  "analyzeElement (ElementNode tg attrs kids rl aria l c) a =
     (let a1 = (if tg = ''button'' \<and> falsy aria \<and> \<not> list_ex isText kids
                then push_warning ''Button element without text content or aria-label'' l c a
                else a);
          a2 = (if tg = ''img'' \<and> \<not> list_ex (\<lambda>attr. fst attr = ''alt'') attrs
                then push_error ''Image element must have alt attribute'' l c a1
                else a1)
      in fold analyzeChild kids a2)"
| "analyzeChild (ElementChild e) a = analyzeElement e a"
| "analyzeChild (ConditionalNode cond cons alt l c) a =
     (let a1 = fold analyzeNode cons a in
      case alt of None \<Rightarrow> a1 | Some alts \<Rightarrow> fold analyzeNode alts a1)"
| "analyzeChild (LoopNode item idx iterable bdy l c) a =
     (let prevVariables = declaredVariables a;
          a1 = a\<lparr>declaredVariables := insert item (declaredVariables a)\<rparr>;
          a2 = (case idx of
                  None \<Rightarrow> a1
                | Some i \<Rightarrow> if i = [] then a1
                            else a1\<lparr>declaredVariables := insert i (declaredVariables a1)\<rparr>);
          a3 = fold analyzeNode bdy a2
      in a3\<lparr>declaredVariables := prevVariables\<rparr>)"
| "analyzeChild (TextNode content interpolations l c) a = a"
| "analyzeChild (SlotNode l c) a = a"
| "analyzeNode (ElementChild e) a = analyzeElement e a"
| "analyzeNode (TextNode content interpolations l c) a = a"
| "analyzeNode (ConditionalNode cond cons alt l c) a = a"
| "analyzeNode (LoopNode item idx iterable bdy l c) a = a"
| "analyzeNode (SlotNode l c) a = a"

definition interactiveTags :: "string list" where
  "interactiveTags = [''button'', ''input'', ''select'', ''textarea'', ''a'']"

fun hasInteractiveElements :: "ElementNode list \<Rightarrow> bool"
  and interactiveElement :: "ElementNode \<Rightarrow> bool"
  and interactiveChild :: "Child \<Rightarrow> bool"
where
  "hasInteractiveElements es = list_ex interactiveElement es"
| "interactiveElement (ElementNode tg attrs kids rl aria l c) =
     (tg \<in> set interactiveTags \<or> list_ex interactiveChild kids)"
| "interactiveChild (ElementChild e) = interactiveElement e"
| "interactiveChild (TextNode content interpolations l c) = False"
| "interactiveChild (ConditionalNode cond cons alt l c) = False"
| "interactiveChild (LoopNode item idx iterable bdy l c) = False"
| "interactiveChild (SlotNode l c) = False"

definition validateAccessibility :: "ComponentNode \<Rightarrow> analyzer \<Rightarrow> analyzer" where
  "validateAccessibility component a =
     (let a1 = (if hasInteractiveElements (c_body component) \<and>
                   falsy (a_role (accessibility component))
                then push_warning
                       (''Component '' @ [CHR 0x27] @ c_name component @ [CHR 0x27] @
                        '' has interactive elements but no role defined'')
                       (c_line component) (c_column component) a
                else a)
      in if c_handlers component \<noteq> [] \<and> falsy (a_label (accessibility component))
         then push_warning
                (''Component '' @ [CHR 0x27] @ c_name component @ [CHR 0x27] @
                 '' has event handlers but no aria-label'')
                (c_line component) (c_column component) a1
         else a1)"

definition declare_state :: "StateDeclaration \<Rightarrow> analyzer \<Rightarrow> analyzer" where
  "declare_state state a =
     (let a1 = (if sd_name state \<in> declaredVariables a
                then push_error (''Duplicate state declaration: '' @ sd_name state)
                       (sd_line state) (sd_column state) a
                else a)
      in a1\<lparr>declaredVariables := insert (sd_name state) (declaredVariables a1)\<rparr>)"

definition declare_computed :: "ComputedDeclaration \<Rightarrow> analyzer \<Rightarrow> analyzer" where
  "declare_computed computed a =
     (let a1 = (if cd_name computed \<in> declaredVariables a
                then push_error (''Duplicate computed declaration: '' @ cd_name computed)
                       (cd_line computed) (cd_column computed) a
                else a);
          a2 = a1\<lparr>declaredVariables := insert (cd_name computed) (declaredVariables a1)\<rparr>
      in fold (\<lambda>dep b.
                 if dep \<notin> declaredVariables b
                 then push_warning
                        (''Computed '' @ [CHR 0x27] @ cd_name computed @ [CHR 0x27] @
                         '' depends on undeclared variable: '' @ dep)
                        (cd_line computed) (cd_column computed) b
                 else b)
           (cd_dependencies computed) a2)"

definition check_effect :: "EffectDeclaration \<Rightarrow> analyzer \<Rightarrow> analyzer" where
  "check_effect effect a =
     fold (\<lambda>dep b.
             if dep \<notin> declaredVariables b
             then push_warning (''Effect depends on undeclared variable: '' @ dep)
                    (ed_line effect) (ed_column effect) b
             else b)
       (ed_dependencies effect) a"

definition analyzeComponent :: "ComponentNode \<Rightarrow> analyzer \<Rightarrow> analyzer" where
  "analyzeComponent component a =
     (let a0 = a\<lparr>declaredVariables := {}\<rparr>;
          a1 = fold declare_state (c_states component) a0;
          a2 = fold declare_computed (c_computed component) a1;
          a3 = fold check_effect (c_effects component) a2;
          a4 = validateAccessibility component a3
      in fold analyzeElement (c_body component) a4)"

definition analyze :: "Program \<Rightarrow> diag list \<times> diag list" where
  "analyze ast =
     (let a = fold analyzeComponent (components ast)
                \<lparr>sem_errors = [], sem_warnings = [], declaredVariables = {}\<rparr>
      in (sem_errors a, sem_warnings a))"

section \<open>Compiler: compile (compiler/index.ts)\<close>

record CompileOptions =
  strict :: bool
  explain :: bool
  minify :: bool

record CompileResult =
  code :: string
  r_errors :: "diag list"
  r_warnings :: "diag list"
  r_ast :: "Program option"
  r_explanation :: "string option"

text \<open>
  The code generator prints number literals through floating point
  (\<open>String(parseFloat(raw))\<close>); compile takes it as the parameter \<open>generate\<close>, and so
  the explanation, which quotes the generated code, through \<open>explanation\<close>. What is
  proved of compile holds for every code generator.
\<close>

definition compile ::
  "nat \<Rightarrow> (Program \<Rightarrow> CompileOptions \<Rightarrow> string) \<Rightarrow> (Program \<Rightarrow> string \<Rightarrow> string) \<Rightarrow>
   string \<Rightarrow> CompileOptions \<Rightarrow> CompileResult option" where
  "compile n generate explanation source options =
     (case tokenize source of
        (toks, lexerErrors) \<Rightarrow>
          if lexerErrors \<noteq> [] then
            Some \<lparr>code = [], r_errors = lexerErrors, r_warnings = [], r_ast = None,
                  r_explanation = None\<rparr>
          else
            (case parse n toks of
               None \<Rightarrow> None
             | Some (ast, parserErrors) \<Rightarrow>
                 (case ast of
                    None \<Rightarrow>
                      Some \<lparr>code = [], r_errors = parserErrors, r_warnings = [], r_ast = None,
                            r_explanation = None\<rparr>
                  | Some p \<Rightarrow>
                      if parserErrors \<noteq> [] then
                        Some \<lparr>code = [], r_errors = parserErrors, r_warnings = [], r_ast = None,
                              r_explanation = None\<rparr>
                      else
                        (case (if strict options then analyze p else ([], [])) of
                           (semanticErrors, semanticWarnings) \<Rightarrow>
                             if semanticErrors \<noteq> [] then
                               Some \<lparr>code = [], r_errors = semanticErrors,
                                     r_warnings = semanticWarnings,
                                     r_ast = (if explain options then Some p else None),
                                     r_explanation = None\<rparr>
                             else
                               Some \<lparr>code = generate p options, r_errors = [],
                                     r_warnings = semanticWarnings,
                                     r_ast = (if explain options then Some p else None),
                                     r_explanation =
                                       (if explain options
                                        then Some (explanation p (generate p options))
                                        else None)\<rparr>))))"

section \<open>The formatter (cli/formatter.ts)\<close>

text \<open>
  The formatter walks the token array of the lexer by index. \<open>tokens[i]\<close> past the end
  is \<open>undefined\<close>, and reading a property of it throws a TypeError; the loops take
  fuel.
\<close>

datatype 'a outcome = Returned 'a | TypeError | OutOfFuel

definition and_then :: "'a outcome \<Rightarrow> ('a \<Rightarrow> 'b outcome) \<Rightarrow> 'b outcome" where
  "and_then r f = (case r of Returned x \<Rightarrow> f x | TypeError \<Rightarrow> TypeError | OutOfFuel \<Rightarrow> OutOfFuel)"

definition token_at :: "token list \<Rightarrow> nat \<Rightarrow> token outcome" where
  "token_at toks i = (if i < length toks then Returned (toks ! i) else TypeError)"

text \<open>\<open>tokens[i]?.type === ty\<close>, and \<open>i < tokens.length && tokens[i].type === ty\<close>.\<close>

definition type_at :: "token list \<Rightarrow> nat \<Rightarrow> TokenType \<Rightarrow> bool" where
  "type_at toks i ty = (i < length toks \<and> ttype (toks ! i) = ty)"

record formatter =
  f_indent :: nat
  out_lines :: "string list"

definition emit :: "string \<Rightarrow> formatter \<Rightarrow> formatter" where
  "emit ln st = st\<lparr>out_lines := out_lines st @ [replicate (f_indent st * 2) CHR '' '' @ ln]\<rparr>"

fun join :: "string \<Rightarrow> string list \<Rightarrow> string" where
  "join sep [] = []"
| "join sep [x] = x"
| "join sep (x # y # ys) = x @ sep @ join sep (y # ys)"

definition isStatementEnd :: "token \<Rightarrow> bool" where
  "isStatementEnd token =
     (ttype token \<in> {NEWLINE, EOF, COMPONENT, STATE, COMPUTED, EFFECT, ON, ANIMATE, ROLE, LABEL})"

text \<open>
  \<open>while (i < tokens.length && !this.isStatementEnd(tokens[i])) { xs.push(tokens[i]); i++ }\<close>
  gives the tokens from \<open>i\<close> to the first statement end.
\<close>

definition statement_tokens :: "token list \<Rightarrow> nat \<Rightarrow> token list" where
  "statement_tokens toks i = takeWhile (\<lambda>t. \<not> isStatementEnd t) (drop i toks)"

text \<open>formatState, formatComputed and formatEventHandler differ in the line they emit.\<close>

definition formatState :: "token list \<Rightarrow> nat \<Rightarrow> formatter \<Rightarrow> (nat \<times> formatter) outcome" where
  "formatState toks start st =
     and_then (token_at toks (start + 1)) (\<lambda>nameToken.
       (let valueTokens = statement_tokens toks (start + 3) in
        Returned (start + 3 + length valueTokens,
          emit (''state '' @ tvalue nameToken @ '' = '' @ join '' '' (map tvalue valueTokens)) st)))"

definition formatComputed :: "token list \<Rightarrow> nat \<Rightarrow> formatter \<Rightarrow> (nat \<times> formatter) outcome" where
  "formatComputed toks start st =
     and_then (token_at toks (start + 1)) (\<lambda>nameToken.
       (let exprTokens = statement_tokens toks (start + 3) in
        Returned (start + 3 + length exprTokens,
          emit (''computed '' @ tvalue nameToken @ '' = '' @ join '' '' (map tvalue exprTokens)) st)))"

definition formatEventHandler :: "token list \<Rightarrow> nat \<Rightarrow> formatter \<Rightarrow> (nat \<times> formatter) outcome" where
  "formatEventHandler toks start st =
     and_then (token_at toks (start + 1)) (\<lambda>eventToken.
       (let handlerTokens = statement_tokens toks (start + 3) in
        Returned (start + 3 + length handlerTokens,
          emit (''on '' @ tvalue eventToken @ '' => '' @ join '' '' (map tvalue handlerTokens)) st)))"

text \<open>
  formatEffect: \<open>while (tokens[i].type !== RPAREN) { ... i++ }\<close> from \<open>start + 2\<close> reads
  past the end when no closing parenthesis follows.
\<close>

definition formatEffect :: "token list \<Rightarrow> nat \<Rightarrow> formatter \<Rightarrow> (nat \<times> formatter) outcome" where
  "formatEffect toks start st =
     (let inside = takeWhile (\<lambda>t. ttype t \<noteq> RPAREN) (drop (start + 2) toks) in
      if start + 2 + length inside < length toks then
        Returned (start + 2 + length inside + 2,
          emit (''effect ('' @
                join '', '' (map tvalue (filter (\<lambda>t. ttype t = IDENTIFIER) inside)) @ '') =>'') st)
      else TypeError)"

primrec animation_lines :: "nat \<Rightarrow> token list \<Rightarrow> nat \<Rightarrow> formatter \<Rightarrow> (nat \<times> formatter) outcome" where
  "animation_lines 0 toks i st = OutOfFuel"
| "animation_lines (Suc k) toks i st =
     (if type_at toks i IDENTIFIER then
        (let propToken = toks ! i;
             valueTokens =
               takeWhile (\<lambda>t. ttype t \<noteq> COMMA \<and> \<not> isStatementEnd t) (drop (i + 2) toks);
             j = i + 2 + length valueTokens;
             st1 = emit (tvalue propToken @ '': '' @ join '' '' (map tvalue valueTokens)) st
         in and_then (token_at toks j) (\<lambda>t.
              if ttype t = COMMA then animation_lines k toks (j + 1) st1
              else Returned (j, st1)))
      else Returned (i, st))"

definition formatAnimation :: "nat \<Rightarrow> token list \<Rightarrow> nat \<Rightarrow> formatter \<Rightarrow> (nat \<times> formatter) outcome" where
  "formatAnimation n toks start st =
     and_then (token_at toks (start + 1)) (\<lambda>triggerToken.
       (let st1 = emit (''animate '' @ tvalue triggerToken @ '':'') st;
            st2 = st1\<lparr>f_indent := f_indent st1 + 1\<rparr>
        in and_then (animation_lines n toks (start + 3) st2) (\<lambda>(i, st3).
             Returned (i, st3\<lparr>f_indent := f_indent st3 - 1\<rparr>))))"

definition formatRole :: "token list \<Rightarrow> nat \<Rightarrow> formatter \<Rightarrow> (nat \<times> formatter) outcome" where
  "formatRole toks start st =
     and_then (token_at toks (start + 1)) (\<lambda>valueToken.
       Returned (start + 2, emit (''role '' @ tvalue valueToken) st))"

definition formatLabel :: "token list \<Rightarrow> nat \<Rightarrow> formatter \<Rightarrow> (nat \<times> formatter) outcome" where
  "formatLabel toks start st =
     and_then (token_at toks (start + 1)) (\<lambda>valueToken.
       Returned (start + 2, emit (''label '' @ tvalue valueToken) st))"

text \<open>
  The attribute loop of formatElement:
  \<open>while (i < n && tokens[i] is IDENTIFIER && tokens[i + 1]?.type === EQUALS)\<close>; the
  attribute's value is the one token \<open>tokens[i + 2]\<close>.
\<close>

primrec element_attrs :: "nat \<Rightarrow> token list \<Rightarrow> nat \<Rightarrow> string list \<Rightarrow> (nat \<times> string list) outcome" where
  "element_attrs 0 toks i attrs = OutOfFuel"
| "element_attrs (Suc k) toks i attrs =
     (if type_at toks i IDENTIFIER \<and> type_at toks (i + 1) EQUALS then
        and_then (token_at toks (i + 2)) (\<lambda>v.
          element_attrs k toks (i + 3) (attrs @ [tvalue (toks ! i) @ ''='' @ tvalue v]))
      else Returned (i, attrs))"

text \<open>
  \<open>while (i < n && tokens[i].type === IDENTIFIER) i = this.formatElement(tokens, i)\<close>,
  with \<open>fe\<close> for formatElement.
\<close>

primrec nested_elements ::
  "nat \<Rightarrow> (nat \<Rightarrow> formatter \<Rightarrow> (nat \<times> formatter) outcome) \<Rightarrow> token list \<Rightarrow> nat \<Rightarrow> formatter \<Rightarrow>
   (nat \<times> formatter) outcome" where
  "nested_elements 0 fe toks i st = OutOfFuel"
| "nested_elements (Suc k) fe toks i st =
     (if type_at toks i IDENTIFIER then
        and_then (fe i st) (\<lambda>(j, st1). nested_elements k fe toks j st1)
      else Returned (i, st))"

primrec formatElement :: "nat \<Rightarrow> token list \<Rightarrow> nat \<Rightarrow> formatter \<Rightarrow> (nat \<times> formatter) outcome" where
  "formatElement 0 toks start st = OutOfFuel"
| "formatElement (Suc n) toks start st =
     and_then (token_at toks start) (\<lambda>tagToken.
     and_then (element_attrs n toks (start + 1) []) (\<lambda>(i, attrs).
       (let attrsStr = (if attrs \<noteq> [] then '' '' @ join '' '' attrs else []) in
        if type_at toks i COLON then
          and_then (token_at toks (i + 1)) (\<lambda>content.
            if ttype content = STRING then
              Returned (i + 2, emit (tvalue tagToken @ attrsStr @ '': '' @ tvalue content) st)
            else
              (let st1 = emit (tvalue tagToken @ attrsStr @ '':'') st;
                   st2 = st1\<lparr>f_indent := f_indent st1 + 1\<rparr>
               in and_then (nested_elements n (formatElement n toks) toks (i + 1) st2)
                    (\<lambda>(j, st3). Returned (j, st3\<lparr>f_indent := f_indent st3 - 1\<rparr>))))
        else Returned (i, emit (tvalue tagToken @ attrsStr) st))))"

primrec component_lines :: "nat \<Rightarrow> token list \<Rightarrow> nat \<Rightarrow> formatter \<Rightarrow> (nat \<times> formatter) outcome" where
  "component_lines 0 toks i st = OutOfFuel"
| "component_lines (Suc k) toks i st =
     (if i < length toks then
        (let ty = ttype (toks ! i) in
         if ty = COMPONENT \<or> ty = EOF then Returned (i, st)
         else
           and_then
             (if ty = STATE then formatState toks i st
              else if ty = COMPUTED then formatComputed toks i st
              else if ty = EFFECT then formatEffect toks i st
              else if ty = ON then formatEventHandler toks i st
              else if ty = ANIMATE then formatAnimation k toks i st
              else if ty = ROLE then formatRole toks i st
              else if ty = LABEL then formatLabel toks i st
              else if ty = IDENTIFIER then formatElement k toks i st
              else Returned (i + 1, st))
             (\<lambda>(j, st1). component_lines k toks j st1))
      else Returned (i, st))"

definition formatComponent :: "nat \<Rightarrow> token list \<Rightarrow> nat \<Rightarrow> formatter \<Rightarrow> (nat \<times> formatter) outcome" where
  "formatComponent n toks start st =
     and_then (token_at toks (start + 1)) (\<lambda>nameToken.
       (let st1 = emit (''component '' @ tvalue nameToken @ '':'') st;
            st2 = st1\<lparr>f_indent := f_indent st1 + 1\<rparr>
        in and_then (component_lines n toks (start + 2) st2) (\<lambda>(i, st3).
             Returned (i, emit [] (st3\<lparr>f_indent := f_indent st3 - 1\<rparr>)))))"

primrec format_loop :: "nat \<Rightarrow> token list \<Rightarrow> nat \<Rightarrow> formatter \<Rightarrow> formatter outcome" where
  "format_loop 0 toks i st = OutOfFuel"
| "format_loop (Suc k) toks i st =
     (if i < length toks then
        (if ttype (toks ! i) = EOF then Returned st
         else if ttype (toks ! i) = COMPONENT then
           and_then (formatComponent k toks i st) (\<lambda>(j, st1). format_loop k toks j st1)
         else format_loop k toks (i + 1) st)
      else Returned st)"

definition format :: "nat \<Rightarrow> string \<Rightarrow> string outcome" where
  "format n source =
     (case tokenize source of
        (toks, errs) \<Rightarrow>
          if errs \<noteq> [] then Returned source
          else
            and_then (format_loop n toks 0 \<lparr>f_indent = 0, out_lines = []\<rparr>) (\<lambda>st.
              (let result = join [CHR 0x0A] (out_lines st) in
               Returned (if result \<noteq> [] \<and> last result = CHR 0x0A then result
                         else result @ [CHR 0x0A]))))"

section \<open>The parser moves forward and never crosses a component keyword\<close>

definition moved :: "parser \<Rightarrow> parser \<Rightarrow> bool" where
  "moved st st' \<longleftrightarrow>
     tokens st' = tokens st \<and> current st \<le> current st' \<and>
     (\<forall>i. current st \<le> i \<and> i < current st' \<longrightarrow>
          ttype (tokens st ! i) \<noteq> EOF \<and> ttype (tokens st ! i) \<noteq> COMPONENT)"

definition forward :: "'a parsing \<Rightarrow> bool" where
  "forward p \<longleftrightarrow> (\<forall>st r st'. p st = Some (r, st') \<longrightarrow> moved st st')"

lemma moved_refl [simp]: "moved st st"
  by (auto simp: moved_def)

lemma moved_trans: "moved a b \<Longrightarrow> moved b c \<Longrightarrow> moved a c"
  unfolding moved_def
  by (metis (no_types, lifting) le_trans not_le_imp_less)

lemma moved_error [simp]: "moved a (error msg st) = moved a st"
  by (simp add: moved_def error_def)

lemma peek_error [simp]: "peek (error msg st) = peek st"
  by (simp add: peek_def error_def)

lemma isAtEnd_error [simp]: "isAtEnd (error msg st) = isAtEnd st"
  by (simp add: isAtEnd_def)

lemma check_error [simp]: "check ty (error msg st) = check ty st"
  by (simp add: check_def)

lemma moved_advance:
  "moved a st \<Longrightarrow> ttype (peek st) \<noteq> COMPONENT \<Longrightarrow> moved a (advance st)"
  unfolding moved_def advance_def isAtEnd_def peek_def
  by (auto simp: less_Suc_eq)

lemma check_peek: "check ty st \<Longrightarrow> ttype (peek st) = ty"
  by (simp add: check_def split: if_splits)

lemma moved_advance_check:
  "moved a st \<Longrightarrow> check ty st \<Longrightarrow> ty \<noteq> COMPONENT \<Longrightarrow> moved a (advance st)"
  by (rule moved_advance) (auto dest: check_peek)

lemma moved_consume:
  "moved a st \<Longrightarrow> ty \<noteq> COMPONENT \<Longrightarrow> moved a (snd (consume ty msg st))"
  by (auto simp: consume_def Let_def intro: moved_advance_check)

lemma moved_match:
  "moved a st \<Longrightarrow> COMPONENT \<notin> set tys \<Longrightarrow> match tys st = (b, st') \<Longrightarrow> moved a st'"
  by (auto simp: match_def list_ex_iff split: if_splits intro: moved_advance_check)

lemma forwardD: "forward p \<Longrightarrow> p st = Some (r, st') \<Longrightarrow> moved a st \<Longrightarrow> moved a st'"
  unfolding forward_def by (blast intro: moved_trans)

lemma forwardI: "(\<And>st r st'. p st = Some (r, st') \<Longrightarrow> moved st st') \<Longrightarrow> forward p"
  unfolding forward_def by blast

lemma expression_list_moved:
  "forward pe \<Longrightarrow> expression_list k pe acc st = Some (r, st') \<Longrightarrow> moved a st \<Longrightarrow> moved a st'"
proof (induction k arbitrary: acc st)
  case 0
  then show ?case by simp
next
  case (Suc k)
  from Suc.prems(2) obtain e st1 where e: "pe st = Some (e, st1)"
    by (auto split: Option.bind_splits)
  from forwardD[OF Suc.prems(1) e Suc.prems(3)] have m: "moved a st1" .
  show ?case
  proof (cases "check COMMA st1")
    case True
    with Suc.prems(2) e have "expression_list k pe (acc @ [e]) (advance st1) = Some (r, st')"
      by simp
    from Suc.IH[OF Suc.prems(1) this] m True show ?thesis
      by (auto intro: moved_advance_check)
  next
    case False
    with Suc.prems(2) e m show ?thesis by auto
  qed
qed

lemma parsePrimary_forward: "forward pe \<Longrightarrow> forward (parsePrimary n pe)"
proof (rule forwardI)
  fix st r st'
  assume fw: "forward pe" and p: "parsePrimary n pe st = Some (r, st')"
  have adv: "\<And>ty. check ty st \<Longrightarrow> ty \<noteq> COMPONENT \<Longrightarrow> moved st (advance st)"
    by (rule moved_advance_check) simp_all
  from p show "moved st st'"
    unfolding parsePrimary_def Let_def
    by (auto split: if_splits Option.bind_splits
        intro!: moved_consume adv
        intro: expression_list_moved[OF fw] forwardD[OF fw])
qed

lemma postfix_loop_moved:
  "forward pe \<Longrightarrow> postfix_loop k pe e st = Some (r, st') \<Longrightarrow> moved a st \<Longrightarrow> moved a st'"
proof (induction k arbitrary: e st)
  case 0
  then show ?case by simp
next
  case (Suc k)
  note fw = Suc.prems(1)
  show ?case
  proof (cases "check DOT st")
    case True
    with Suc.prems(2) obtain e' where
      "postfix_loop k pe e' (snd (consume IDENTIFIER ''Expected property name'' (advance st))) = Some (r, st')"
      by (auto simp: split_beta)
    from Suc.IH[OF fw this] Suc.prems(3) True show ?thesis
      by (auto intro!: moved_consume intro: moved_advance_check)
  next
    case d: False
    show ?thesis
    proof (cases "check LBRACKET st")
      case True
      with d Suc.prems(2) obtain p st2 e' where
        p: "pe (advance st) = Some (p, st2)" and
        l: "postfix_loop k pe e' (snd (consume RBRACKET ''Expected ] after computed property'' st2)) = Some (r, st')"
        by (auto simp: Let_def split: Option.bind_splits)
      have "moved a (advance st)"
        using Suc.prems(3) True by (auto intro: moved_advance_check)
      from forwardD[OF fw p this] have "moved a st2" .
      from Suc.IH[OF fw l] this show ?thesis
        by (auto intro!: moved_consume)
    next
      case b: False
      show ?thesis
      proof (cases "check LPAREN st")
        case True
        with d b Suc.prems(2) obtain args st2 e' where
          p: "(if check RPAREN (advance st) then Some ([], advance st)
               else expression_list k pe [] (advance st)) = Some (args, st2)" and
          l: "postfix_loop k pe e' (snd (consume RPAREN ''Expected ) after arguments'' st2)) = Some (r, st')"
          by (auto simp: Let_def split: Option.bind_splits)
        have "moved a (advance st)"
          using Suc.prems(3) True by (auto intro: moved_advance_check)
        with p have "moved a st2"
          by (auto split: if_splits intro: expression_list_moved[OF fw])
        from Suc.IH[OF fw l] this show ?thesis
          by (auto intro!: moved_consume)
      next
        case False
        with d b Suc.prems show ?thesis by simp
      qed
    qed
  qed
qed

lemma parsePostfix_forward:
  assumes fw: "forward pe"
  shows "forward (parsePostfix n pe)"
proof (rule forwardI)
  fix st r st'
  assume "parsePostfix n pe st = Some (r, st')"
  then obtain e st1 where p: "parsePrimary n pe st = Some (e, st1)"
    and l: "postfix_loop n pe e st1 = Some (r, st')"
    by (auto simp: parsePostfix_def split: Option.bind_splits)
  from forwardD[OF parsePrimary_forward[OF fw] p] have "moved st st1" by simp
  from postfix_loop_moved[OF fw l this] show "moved st st'" .
qed

lemma parseUnary_moved:
  "forward pe \<Longrightarrow> parseUnary k pe st = Some (r, st') \<Longrightarrow> moved a st \<Longrightarrow> moved a st'"
proof (induction k arbitrary: st r)
  case 0
  then show ?case by simp
next
  case (Suc k)
  show ?case
  proof (cases "match [BANG, MINUS] st")
    case (Pair b st1)
    have m: "moved a st1"
      using moved_match[OF Suc.prems(3) _ Pair] by simp
    show ?thesis
    proof (cases b)
      case True
      with Pair Suc.prems(2) obtain arg where "parseUnary k pe st1 = Some (arg, st')"
        by (auto split: Option.bind_splits)
      from Suc.IH[OF Suc.prems(1) this m] show ?thesis .
    next
      case False
      with Pair Suc.prems(2) have "parsePostfix k pe st = Some (r, st')" by simp
      from forwardD[OF parsePostfix_forward[OF Suc.prems(1)] this Suc.prems(3)] show ?thesis .
    qed
  qed
qed

lemma parseUnary_forward: "forward pe \<Longrightarrow> forward (parseUnary n pe)"
  by (rule forwardI) (auto intro: parseUnary_moved)

lemma binary_loop_moved:
  "forward operand \<Longrightarrow> COMPONENT \<notin> set ops \<Longrightarrow>
   binary_loop k ops operand left st = Some (r, st') \<Longrightarrow> moved a st \<Longrightarrow> moved a st'"
proof (induction k arbitrary: left st)
  case 0
  then show ?case by simp
next
  case (Suc k)
  show ?case
  proof (cases "match ops st")
    case (Pair b st1)
    have m: "moved a st1"
      using moved_match[OF Suc.prems(4,2) Pair] .
    show ?thesis
    proof (cases b)
      case True
      with Pair Suc.prems(3) obtain right st2 left' where
        o: "operand st1 = Some (right, st2)" and
        l: "binary_loop k ops operand left' st2 = Some (r, st')"
        by (auto split: Option.bind_splits)
      from forwardD[OF Suc.prems(1) o m] have "moved a st2" .
      from Suc.IH[OF Suc.prems(1,2) l this] show ?thesis .
    next
      case False
      with Pair Suc.prems show ?thesis by simp
    qed
  qed
qed

lemma binary_level_forward:
  assumes "forward operand" "COMPONENT \<notin> set ops"
  shows "forward (\<lambda>st. do { (left, st1) \<leftarrow> operand st; binary_loop n ops operand left st1 })"
proof (rule forwardI)
  fix st r st'
  assume "do { (left, st1) \<leftarrow> operand st; binary_loop n ops operand left st1 } = Some (r, st')"
  then obtain e st1 where p: "operand st = Some (e, st1)"
    and l: "binary_loop n ops operand e st1 = Some (r, st')"
    by (auto split: Option.bind_splits)
  from forwardD[OF assms(1) p] have "moved st st1" by simp
  from binary_loop_moved[OF assms l this] show "moved st st'" .
qed

lemma parseMultiplicative_forward: "forward pe \<Longrightarrow> forward (parseMultiplicative n pe)"
  using binary_level_forward[OF parseUnary_forward, of pe "[STAR, SLASH]" n n]
  by (simp add: parseMultiplicative_def[abs_def])

lemma parseAdditive_forward: "forward pe \<Longrightarrow> forward (parseAdditive n pe)"
  using binary_level_forward[OF parseMultiplicative_forward, of pe "[PLUS, MINUS]" n n]
  by (simp add: parseAdditive_def[abs_def])

lemma parseComparison_forward: "forward pe \<Longrightarrow> forward (parseComparison n pe)"
  using binary_level_forward[OF parseAdditive_forward, of pe "[LT, GT, LE, GE]" n n]
  by (simp add: parseComparison_def[abs_def])

lemma parseEquality_forward: "forward pe \<Longrightarrow> forward (parseEquality n pe)"
  using binary_level_forward[OF parseComparison_forward, of pe "[EQ, NE]" n n]
  by (simp add: parseEquality_def[abs_def])

lemma parseLogicalAnd_forward: "forward pe \<Longrightarrow> forward (parseLogicalAnd n pe)"
  using binary_level_forward[OF parseEquality_forward, of pe "[AND]" n n]
  by (simp add: parseLogicalAnd_def[abs_def])

lemma parseLogicalOr_forward: "forward pe \<Longrightarrow> forward (parseLogicalOr n pe)"
  using binary_level_forward[OF parseLogicalAnd_forward, of pe "[OR]" n n]
  by (simp add: parseLogicalOr_def[abs_def])

lemma parseTernary_forward: "forward (parseTernary n)"
proof (induction n)
  case 0
  show ?case by (rule forwardI) simp
next
  case (Suc n)
  show ?case
  proof (rule forwardI)
    fix st r st'
    assume p: "parseTernary (Suc n) st = Some (r, st')"
    then obtain e st1 where
      o: "parseLogicalOr n (parseTernary n) st = Some (e, st1)"
      by (auto split: Option.bind_splits)
    from forwardD[OF parseLogicalOr_forward[OF Suc.IH] o] have m1: "moved st st1" by simp
    show "moved st st'"
    proof (cases "check QUESTION st1")
      case True
      with p o obtain c st3 al where
        c: "parseTernary n (advance st1) = Some (c, st3)" and
        a: "parseTernary n (snd (consume COLON ''Expected : in conditional expression'' st3)) = Some (al, st')"
        by (auto split: Option.bind_splits)
      have "moved st (advance st1)"
        using m1 True by (auto intro: moved_advance_check)
      from forwardD[OF Suc.IH c this] have "moved st st3" .
      then have "moved st (snd (consume COLON ''Expected : in conditional expression'' st3))"
        by (auto intro!: moved_consume)
      from forwardD[OF Suc.IH a this] show ?thesis .
    next
      case False
      with p o m1 show ?thesis by simp
    qed
  qed
qed

lemma parseExpression_forward: "forward (parseExpression n)"
  by (simp add: parseExpression_def parseTernary_forward)

lemma parseExpression_moved:
  "parseExpression n st = Some (r, st') \<Longrightarrow> moved a st \<Longrightarrow> moved a st'"
  by (rule forwardD[OF parseExpression_forward])

lemma parseState_moved:
  "parseState n st = Some (r, st') \<Longrightarrow> moved a st \<Longrightarrow> moved a st'"
  by (auto simp: parseState_def Let_def split_beta split: Option.bind_splits
      elim!: parseExpression_moved intro!: moved_consume)

lemma parseComputed_moved:
  "parseComputed n st = Some (r, st') \<Longrightarrow> moved a st \<Longrightarrow> moved a st'"
  by (auto simp: parseComputed_def Let_def split_beta split: Option.bind_splits
      elim!: parseExpression_moved intro!: moved_consume)

lemma name_list_moved:
  "name_list k msg acc st = Some (r, st') \<Longrightarrow> moved a st \<Longrightarrow> moved a st'"
proof (induction k arbitrary: acc st)
  case 0
  then show ?case by simp
next
  case (Suc k)
  let ?st1 = "snd (consume IDENTIFIER msg st)"
  have m: "moved a ?st1" using Suc.prems(2) by (auto intro!: moved_consume)
  show ?case
  proof (cases "check COMMA ?st1")
    case True
    with Suc.prems(1) obtain acc' where "name_list k msg acc' (advance ?st1) = Some (r, st')"
      by (auto simp: split_beta)
    from Suc.IH[OF this] m True show ?thesis by (auto intro: moved_advance_check)
  next
    case False
    with Suc.prems(1) m show ?thesis by (auto simp: split_beta)
  qed
qed

lemma parseEffect_moved:
  "parseEffect n st = Some (r, st') \<Longrightarrow> moved a st \<Longrightarrow> moved a st'"
  by (auto simp: parseEffect_def Let_def split_beta split: Option.bind_splits if_splits
      elim!: name_list_moved intro!: moved_consume)

lemma parseArrowFunction_moved:
  assumes "parseArrowFunction n st = Some (r, st')" "moved a st"
  shows "moved a st'"
proof -
  from assms(1) obtain ps st2 where
    p: "(if check LPAREN st then
             do {
               (ps, st1) \<leftarrow>
                 (if \<not> check RPAREN (advance st)
                  then name_list n ''Expected parameter name'' [] (advance st)
                  else Some ([], advance st));
               Some (ps, snd (consume RPAREN ''Expected ) after parameters'' st1))
             }
           else Some ([], st)) = Some (ps, st2)"
    and b: "\<exists>b. parseExpression n st2 = Some (b, st')"
    by (auto simp: parseArrowFunction_def Let_def split: Option.bind_splits)
  have "moved a st2"
  proof (cases "check LPAREN st")
    case True
    then have "moved a (advance st)" using assms(2) by (auto intro: moved_advance_check)
    with True p show ?thesis
      by (auto split: Option.bind_splits if_splits elim!: name_list_moved intro!: moved_consume)
  next
    case False
    with p assms(2) show ?thesis by simp
  qed
  with b show ?thesis by (auto elim: parseExpression_moved)
qed

lemma parseEventHandler_moved:
  "parseEventHandler n st = Some (r, st') \<Longrightarrow> moved a st \<Longrightarrow> moved a st'"
  by (auto simp: parseEventHandler_def Let_def split_beta split: Option.bind_splits
      elim!: parseArrowFunction_moved intro!: moved_consume)

lemma animation_properties_moved:
  "animation_properties k acc st = Some (r, st') \<Longrightarrow> moved a st \<Longrightarrow> moved a st'"
proof (induction k arbitrary: acc st)
  case 0
  then show ?case by simp
next
  case (Suc k)
  show ?case
  proof (cases "\<not> isAtEnd st \<and> check IDENTIFIER st")
    case True
    let ?st2 = "snd (consume COLON ''Expected : after property name'' (advance st))"
    have m2: "moved a ?st2"
      using Suc.prems(2) True by (auto intro!: moved_consume intro: moved_advance_check)
    from True Suc.prems(1) obtain to st3 where
      e: "parseExpression k ?st2 = Some (to, st3)"
      by (auto simp: Let_def split: Option.bind_splits)
    from parseExpression_moved[OF e m2] have m3: "moved a st3" .
    show ?thesis
    proof (cases "check COMMA st3")
      case c: True
      with True Suc.prems(1) e obtain acc' where
        "animation_properties k acc' (advance st3) = Some (r, st')"
        by (auto simp: Let_def)
      from Suc.IH[OF this] m3 c show ?thesis by (auto intro: moved_advance_check)
    next
      case False
      with True Suc.prems(1) e m3 show ?thesis by (auto simp: Let_def)
    qed
  next
    case False
    with Suc.prems show ?thesis by auto
  qed
qed

lemma parseAnimation_moved:
  "parseAnimation n st = Some (r, st') \<Longrightarrow> moved a st \<Longrightarrow> moved a st'"
  by (auto simp: parseAnimation_def Let_def split_beta split: Option.bind_splits
      elim!: animation_properties_moved intro!: moved_consume)

lemma parseStringValue_moved:
  "moved a st \<Longrightarrow> moved a (snd (parseStringValue st))"
  by (auto simp: parseStringValue_def split_beta intro!: moved_consume)

lemma style_properties_moved:
  "style_properties k ps st = Some (r, st') \<Longrightarrow> moved a st \<Longrightarrow> moved a st'"
proof (induction k arbitrary: ps st)
  case 0
  then show ?case by simp
next
  case (Suc k)
  show ?case
  proof (cases "\<not> isAtEnd st \<and> check IDENTIFIER st")
    case True
    let ?st2 = "snd (consume COLON ''Expected : after property name'' (advance st))"
    have m2: "moved a ?st2"
      using Suc.prems(2) True by (auto intro!: moved_consume intro: moved_advance_check)
    show ?thesis
    proof (cases "check STRING ?st2 \<or> check NUMBER ?st2")
      case s: True
      with True Suc.prems(1) obtain ps' where
        "style_properties k ps' (advance ?st2) = Some (r, st')"
        by (auto simp: Let_def split: if_splits)
      from Suc.IH[OF this] m2 s show ?thesis by (auto intro: moved_advance_check)
    next
      case False
      with True Suc.prems(1) obtain e st3 ps' where
        e: "parseExpression k ?st2 = Some (e, st3)" and
        l: "style_properties k ps' st3 = Some (r, st')"
        by (auto simp: Let_def split: Option.bind_splits)
      from Suc.IH[OF l parseExpression_moved[OF e m2]] show ?thesis .
    qed
  next
    case False
    with Suc.prems show ?thesis by auto
  qed
qed

lemma style_rules_moved:
  "style_rules k rs st = Some (r, st') \<Longrightarrow> moved a st \<Longrightarrow> moved a st'"
proof (induction k arbitrary: rs st)
  case 0
  then show ?case by simp
next
  case (Suc k)
  show ?case
  proof (cases "\<not> isAtEnd st \<and> \<not> check COMPONENT st \<and> \<not> check SPACE st \<and> \<not> check STYLE st")
    case True
    let ?st3 = "snd (consume COLON ''Expected : after selector''
       (snd (consume IDENTIFIER ''Expected class name''
          (snd (consume DOT ''Expected . for class selector'' st)))))"
    have m3: "moved a ?st3"
      using Suc.prems(2) by (auto intro!: moved_consume)
    from True Suc.prems(1) obtain ps st4 rs' where
      p: "style_properties k [] ?st3 = Some (ps, st4)" and
      l: "style_rules k rs' st4 = Some (r, st')"
      by (auto simp: Let_def split_beta split: Option.bind_splits)
    from Suc.IH[OF l style_properties_moved[OF p m3]] show ?thesis .
  next
    case False
    with Suc.prems show ?thesis by auto
  qed
qed

lemma parseStyle_moved:
  "parseStyle n st = Some (r, st') \<Longrightarrow> moved a st \<Longrightarrow> moved a st'"
  by (auto simp: parseStyle_def Let_def split: Option.bind_splits if_splits
      elim!: style_rules_moved intro!: moved_consume intro: moved_advance_check)

lemma isAttributeName_not_COMPONENT: "isAttributeName t \<Longrightarrow> ttype t \<noteq> COMPONENT"
  by (auto simp: isAttributeName_def)

lemma attribute_name_moved:
  "attribute_name k nm st = Some (r, st') \<Longrightarrow> moved a st \<Longrightarrow> moved a st'"
proof (induction k arbitrary: nm st)
  case 0
  then show ?case by simp
next
  case (Suc k)
  show ?case
  proof (cases "check MINUS st")
    case True
    then have m1: "moved a (advance st)"
      using Suc.prems(2) by (auto intro: moved_advance_check)
    show ?thesis
    proof (cases "isAttributeName (peek (advance st))")
      case i: True
      with True Suc.prems(1) obtain nm' where
        "attribute_name k nm' (advance (advance st)) = Some (r, st')"
        by (auto simp: Let_def)
      from Suc.IH[OF this] m1 i show ?thesis
        by (auto intro: moved_advance dest: isAttributeName_not_COMPONENT)
    next
      case False
      with True Suc.prems(1) obtain nm' where
        "attribute_name k nm' (error ''Expected attribute name part after -'' (advance st)) = Some (r, st')"
        by (auto simp: Let_def)
      from Suc.IH[OF this] m1 show ?thesis by simp
    qed
  next
    case False
    with Suc.prems show ?thesis by auto
  qed
qed

lemma element_attributes_moved:
  "element_attributes k attrs st = Some (r, st') \<Longrightarrow> moved a st \<Longrightarrow> moved a st'"
proof (induction k arbitrary: attrs st)
  case 0
  then show ?case by simp
next
  case (Suc k)
  show ?case
  proof (cases "isAttributeName (peek st) \<and> \<not> checkNext COLON st")
    case True
    then have m1: "moved a (advance st)"
      using Suc.prems(2) by (auto intro: moved_advance dest: isAttributeName_not_COMPONENT)
    from True Suc.prems(1) obtain nm st2 v st4 attrs' where
      n: "attribute_name k (tvalue (previous (advance st))) (advance st) = Some (nm, st2)" and
      e: "parseExpression k (snd (consume EQUALS ''Expected = after attribute name'' st2)) = Some (v, st4)" and
      l: "element_attributes k attrs' st4 = Some (r, st')"
      by (auto simp: Let_def split: Option.bind_splits)
    from attribute_name_moved[OF n m1]
    have "moved a (snd (consume EQUALS ''Expected = after attribute name'' st2))"
      by (auto intro!: moved_consume)
    from Suc.IH[OF l parseExpression_moved[OF e this]] show ?thesis .
  next
    case False
    with Suc.prems show ?thesis by auto
  qed
qed

lemma branch_moved:
  assumes "forward pel"
    and "(if check IDENTIFIER st
           then do { (element, st') \<leftarrow> pel st; Some ([ElementChild element], st') }
           else Some ([], st)) = Some (r, st')"
    and "moved a st"
  shows "moved a st'"
  using assms(2,3)
  by (auto split: if_splits Option.bind_splits elim!: forwardD[OF assms(1)])

lemma parseConditional_moved:
  assumes "forward pel" "parseConditional n pel st = Some (r, st')" "moved a st"
  shows "moved a st'"
proof -
  let ?st1 = "snd (consume IDENTIFIER ''Expected when'' st)"
  from assms(2) obtain c st2 r' where
    e: "parseExpression n ?st1 = Some (c, st2)" and
    b: "(if check IDENTIFIER (snd (consume COLON ''Expected : after condition'' st2))
           then do { (element, st') \<leftarrow> pel (snd (consume COLON ''Expected : after condition'' st2));
                     Some ([ElementChild element], st') }
           else Some ([], snd (consume COLON ''Expected : after condition'' st2))) = Some (r', st')"
    by (auto simp: parseConditional_def Let_def split: Option.bind_splits)
  have "moved a ?st1" using assms(3) by (auto intro!: moved_consume)
  from parseExpression_moved[OF e this]
  have "moved a (snd (consume COLON ''Expected : after condition'' st2))"
    by (auto intro!: moved_consume)
  from branch_moved[OF assms(1) b this] show ?thesis .
qed

lemma parseLoop_moved:
  assumes "forward pel" "parseLoop n pel st = Some (r, st')" "moved a st"
  shows "moved a st'"
proof -
  obtain item st2 where i: "consume IDENTIFIER ''Expected item name''
         (snd (consume IDENTIFIER ''Expected each'' st)) = (item, st2)"
    by (cases "consume IDENTIFIER ''Expected item name''
         (snd (consume IDENTIFIER ''Expected each'' st))") auto
  let ?st3 = "snd (consume IDENTIFIER ''Expected in'' st2)"
  from assms(2) i obtain c st4 r' where
    e: "parseExpression n ?st3 = Some (c, st4)" and
    b: "(if check IDENTIFIER (snd (consume COLON ''Expected : after iterable'' st4))
           then do { (element, st') \<leftarrow> pel (snd (consume COLON ''Expected : after iterable'' st4));
                     Some ([ElementChild element], st') }
           else Some ([], snd (consume COLON ''Expected : after iterable'' st4))) = Some (r', st')"
    by (auto simp: parseLoop_def Let_def split: Option.bind_splits)
  have "moved a (snd (consume IDENTIFIER ''Expected each'' st))"
    using assms(3) by (auto intro!: moved_consume)
  then have "moved a (snd (consume IDENTIFIER ''Expected item name''
         (snd (consume IDENTIFIER ''Expected each'' st))))"
    by (auto intro!: moved_consume)
  with i have "moved a ?st3" by (auto intro!: moved_consume)
  from parseExpression_moved[OF e this]
  have "moved a (snd (consume COLON ''Expected : after iterable'' st4))"
    by (auto intro!: moved_consume)
  from branch_moved[OF assms(1) b this] show ?thesis .
qed

lemma parseSlot_moved: "moved a st \<Longrightarrow> moved a (snd (parseSlot st))"
  by (auto simp: parseSlot_def Let_def intro!: moved_consume)

lemma element_children_moved:
  "forward pel \<Longrightarrow> element_children k pel kids st = Some (r, st') \<Longrightarrow> moved a st \<Longrightarrow>
   moved a st'"
proof (induction k arbitrary: kids st)
  case 0
  then show ?case by simp
next
  case (Suc k)
  note fw = Suc.prems(1)
  show ?case
  proof (cases "\<not> isAtEnd st \<and> check IDENTIFIER st")
    case True
    consider (w) "tvalue (peek st) = ''when''"
      | (e) "tvalue (peek st) \<noteq> ''when''" "tvalue (peek st) = ''each''"
      | (s) "tvalue (peek st) \<noteq> ''when''" "tvalue (peek st) \<noteq> ''each''" "tvalue (peek st) = ''slot''"
      | (el) "tvalue (peek st) \<noteq> ''when''" "tvalue (peek st) \<noteq> ''each''" "tvalue (peek st) \<noteq> ''slot''"
      by blast
    then show ?thesis
    proof cases
      case w
      with True Suc.prems(2) obtain c st1 kids' where
        c: "parseConditional k pel st = Some (c, st1)" and
        l: "element_children k pel kids' st1 = Some (r, st')"
        by (auto split: Option.bind_splits)
      from Suc.IH[OF fw l parseConditional_moved[OF fw c Suc.prems(3)]] show ?thesis .
    next
      case e
      with True Suc.prems(2) obtain c st1 kids' where
        c: "parseLoop k pel st = Some (c, st1)" and
        l: "element_children k pel kids' st1 = Some (r, st')"
        by (auto split: Option.bind_splits)
      from Suc.IH[OF fw l parseLoop_moved[OF fw c Suc.prems(3)]] show ?thesis .
    next
      case s
      with True Suc.prems(2) obtain kids' where
        l: "element_children k pel kids' (snd (parseSlot st)) = Some (r, st')"
        by (auto simp: split_beta)
      from Suc.IH[OF fw l parseSlot_moved[OF Suc.prems(3)]] show ?thesis .
    next
      case el
      with True Suc.prems(2) obtain c st1 kids' where
        c: "pel st = Some (c, st1)" and
        l: "element_children k pel kids' st1 = Some (r, st')"
        by (auto split: Option.bind_splits)
      from Suc.IH[OF fw l forwardD[OF fw c Suc.prems(3)]] show ?thesis .
    qed
  next
    case False
    with Suc.prems show ?thesis by auto
  qed
qed

lemma parseElement_forward: "forward (parseElement n)"
proof (induction n)
  case 0
  show ?case by (rule forwardI) simp
next
  case (Suc n)
  show ?case
  proof (rule forwardI)
    fix st r st'
    assume p: "parseElement (Suc n) st = Some (r, st')"
    obtain tg st1 where t: "consume IDENTIFIER ''Expected element tag'' st = (tg, st1)"
      by (cases "consume IDENTIFIER ''Expected element tag'' st") auto
    from p t obtain attrs st2 kids where
      a: "element_attributes n [] st1 = Some (attrs, st2)" and
      c: "(if check COLON st2 then
             (if check STRING (advance st2) then
                (let st' = advance (advance st2); text = previous st' in
                 Some ([TextNode (tvalue text) [] (tline text) (tcolumn text)], st'))
              else element_children n (parseElement n) [] (advance st2))
           else Some ([], st2)) = Some (kids, st')"
      by (auto simp: Let_def split: Option.bind_splits)
    have "moved st (snd (consume IDENTIFIER ''Expected element tag'' st))"
      by (auto intro!: moved_consume)
    with t have "moved st st1" by simp
    from element_attributes_moved[OF a this] have m2: "moved st st2" .
    show "moved st st'"
    proof (cases "check COLON st2")
      case True
      then have m3: "moved st (advance st2)" using m2 by (auto intro: moved_advance_check)
      show ?thesis
      proof (cases "check STRING (advance st2)")
        case s: True
        with True c m3 show ?thesis by (auto simp: Let_def intro: moved_advance_check)
      next
        case False
        with True c have "element_children n (parseElement n) [] (advance st2) = Some (kids, st')"
          by simp
        from element_children_moved[OF Suc.IH this m3] show ?thesis .
      qed
    next
      case False
      with c m2 show ?thesis by simp
    qed
  qed
qed

lemma parseElement_moved:
  "parseElement n st = Some (r, st') \<Longrightarrow> moved a st \<Longrightarrow> moved a st'"
  by (rule forwardD[OF parseElement_forward])

lemmas decl_moved = parseState_moved parseComputed_moved parseEffect_moved
  parseEventHandler_moved parseAnimation_moved parseStyle_moved parseElement_moved

lemma parseStringValue_moved':
  "parseStringValue st = (v, st1) \<Longrightarrow> moved a st \<Longrightarrow> moved a st1"
  using parseStringValue_moved[of a st] by simp

lemma component_body_moved:
  "component_body k c st = Some (r, st') \<Longrightarrow> moved a st \<Longrightarrow> moved a st'"
proof (induction k arbitrary: c st)
  case 0
  then show ?case by simp
next
  case (Suc k)
  have adv: "\<And>ty. check ty st \<Longrightarrow> ty \<noteq> COMPONENT \<Longrightarrow> moved a (advance st)"
    using Suc.prems(2) by (rule moved_advance_check)
  have adv': "\<not> isAtEnd st \<Longrightarrow> \<not> check COMPONENT st \<Longrightarrow> moved a (advance st)"
    using Suc.prems(2) by (auto simp: check_def intro: moved_advance)
  from Suc.prems show ?case
    by (simp split: if_splits Option.bind_splits prod.splits)
       (auto elim!: Suc.IH decl_moved parseStringValue_moved' intro: adv adv')
qed

text \<open>parseComponent passes the COMPONENT token it stands on, and then no other.\<close>

lemma parseComponent_moved:
  assumes "parseComponent n st = Some (r, st')" "check COMPONENT st"
  shows "\<exists>c. r = Some c" and "moved (advance st) st'"
  using assms
  by (auto simp: parseComponent_def Let_def split: Option.bind_splits prod.splits
      elim!: component_body_moved intro!: moved_consume
      dest!: arg_cong[where f=snd and y="(_, _)"])

lemma space_body_moved:
  "space_body k s st = Some (r, st') \<Longrightarrow> moved a st \<Longrightarrow> moved a st'"
proof (induction k arbitrary: s st)
  case 0
  then show ?case by simp
next
  case (Suc k)
  have adv: "\<And>ty. check ty st \<Longrightarrow> ty \<noteq> COMPONENT \<Longrightarrow> moved a (advance st)"
    using Suc.prems(2) by (rule moved_advance_check)
  have adv': "\<not> isAtEnd st \<Longrightarrow> \<not> check COMPONENT st \<Longrightarrow> moved a (advance st)"
    using Suc.prems(2) by (auto simp: check_def intro: moved_advance)
  from Suc.prems show ?case
    by (simp split: if_splits Option.bind_splits prod.splits)
       (auto elim!: Suc.IH decl_moved intro: adv adv')
qed

lemma parseSpace_moved:
  "parseSpace n st = Some (r, st') \<Longrightarrow> moved a st \<Longrightarrow> moved a st'"
  by (auto simp: parseSpace_def Let_def split: Option.bind_splits prod.splits if_splits
      elim!: space_body_moved intro!: moved_consume intro: moved_advance_check
      dest!: arg_cong[where f=snd and y="(_, _)"])

lemma synchronize_loop_moved:
  "synchronize_loop k st = Some st' \<Longrightarrow> moved a st \<Longrightarrow> moved a st'"
proof (induction k arbitrary: st)
  case 0
  then show ?case by simp
next
  case (Suc k)
  then show ?case
    by (auto split: if_splits intro: moved_advance)
qed

lemma synchronize_moved:
  "synchronize n st = Some st' \<Longrightarrow> moved a st \<Longrightarrow> ttype (peek st) \<noteq> COMPONENT \<Longrightarrow>
   moved a st'"
  by (auto simp: synchronize_def elim!: synchronize_loop_moved intro: moved_advance)

section \<open>Top-level declarations and keywords\<close>

definition count_type :: "TokenType \<Rightarrow> token list \<Rightarrow> nat" where
  "count_type ty toks = length (filter (\<lambda>t. ttype t = ty) toks)"

text \<open>
  \<open>ahead st\<close>: an EOF stands at the current position or after it, and none before.
\<close>

definition ahead :: "parser \<Rightarrow> bool" where
  "ahead st \<longleftrightarrow>
     (\<exists>j. current st \<le> j \<and> j < length (tokens st) \<and> ttype (tokens st ! j) = EOF) \<and>
     (\<forall>i. i < current st \<longrightarrow> ttype (tokens st ! i) \<noteq> EOF)"

lemma moved_ahead: "moved st st' \<Longrightarrow> ahead st \<Longrightarrow> ahead st'"
  unfolding moved_def ahead_def
  by (metis leI le_trans)

lemma ahead_in_range: "ahead st \<Longrightarrow> current st < length (tokens st) \<or> False"
  unfolding ahead_def by (meson le_less_trans)

lemma filter_take_between:
  assumes "a \<le> b" "b \<le> length xs" "\<And>i. a \<le> i \<Longrightarrow> i < b \<Longrightarrow> \<not> P (xs ! i)"
  shows "filter P (take b xs) = filter P (take a xs)"
proof -
  obtain d where b: "b = a + d" using assms(1) by (auto simp: le_iff_add)
  have "take b xs = take a xs @ take d (drop a xs)"
    by (simp add: b take_add)
  moreover have "filter P (take d (drop a xs)) = []"
  proof -
    have "\<And>x. x \<in> set (take d (drop a xs)) \<Longrightarrow> \<not> P x"
    proof -
      fix x assume "x \<in> set (take d (drop a xs))"
      then obtain i where i: "i < length (take d (drop a xs))" "x = take d (drop a xs) ! i"
        by (auto simp: in_set_conv_nth)
      then have "x = xs ! (a + i)" "a + i < b" using assms(2) b by auto
      with assms(3)[of "a + i"] show "\<not> P x" by simp
    qed
    then show ?thesis by (simp add: filter_empty_conv)
  qed
  ultimately show ?thesis by simp
qed

lemma moved_count_COMPONENT:
  assumes "moved st st'" "ahead st"
  shows "count_type COMPONENT (take (current st') (tokens st')) =
         count_type COMPONENT (take (current st) (tokens st))"
proof -
  from moved_ahead[OF assms] have "current st' < length (tokens st')"
    using ahead_in_range by blast
  with assms(1) have "filter (\<lambda>t. ttype t = COMPONENT) (take (current st') (tokens st)) =
      filter (\<lambda>t. ttype t = COMPONENT) (take (current st) (tokens st))"
    unfolding moved_def by (intro filter_take_between) auto
  with assms(1) show ?thesis
    by (simp add: count_type_def moved_def)
qed

lemma count_take_mono:
  "a \<le> b \<Longrightarrow> count_type ty (take a xs) \<le> count_type ty (take b xs)"
proof -
  assume "a \<le> b"
  then obtain d where "b = a + d" by (auto simp: le_iff_add)
  then show ?thesis by (simp add: count_type_def take_add)
qed

lemma moved_count_mono:
  "moved st st' \<Longrightarrow>
   count_type ty (take (current st) (tokens st)) \<le> count_type ty (take (current st') (tokens st'))"
  by (simp add: moved_def count_take_mono)

lemma count_take_Suc:
  "i < length xs \<Longrightarrow> ttype (xs ! i) = ty \<Longrightarrow>
   count_type ty (take (Suc i) xs) = Suc (count_type ty (take i xs))"
  by (simp add: count_type_def take_Suc_conv_app_nth)

lemma count_take_Suc_other:
  "i < length xs \<Longrightarrow> ttype (xs ! i) \<noteq> ty \<Longrightarrow>
   count_type ty (take (Suc i) xs) = count_type ty (take i xs)"
  by (simp add: count_type_def take_Suc_conv_app_nth)

text \<open>The invariant of the loop of parse.\<close>

definition counted :: "Program \<Rightarrow> parser \<Rightarrow> bool" where
  "counted p st \<longleftrightarrow>
     ahead st \<and>
     length (components p) = count_type COMPONENT (take (current st) (tokens st)) \<and>
     length (spaces p) \<le> count_type SPACE (take (current st) (tokens st)) \<and>
     length (styles p) \<le> count_type STYLE (take (current st) (tokens st))"

lemma advance_at: "check ty st \<Longrightarrow> advance st = st\<lparr>current := Suc (current st)\<rparr>"
  by (simp add: advance_def check_def split: if_splits)

lemma moved_tokens: "moved st st' \<Longrightarrow> tokens st' = tokens st"
  by (simp add: moved_def)

lemma parse_loop_counted:
  "parse_loop k p st = Some (p', st') \<Longrightarrow> counted p st \<Longrightarrow>
   counted p' st' \<and> isAtEnd st' \<and> tokens st' = tokens st"
proof (induction k arbitrary: p st)
  case 0
  then show ?case by simp
next
  case (Suc k)
  from Suc.prems(2) have ah: "ahead st" by (simp add: counted_def)
  then have rng: "current st < length (tokens st)" using ahead_in_range by blast
  show ?case
  proof (cases "isAtEnd st")
    case True
    with Suc.prems show ?thesis by simp
  next
    case ne: False
    have step: "\<And>ty. check ty st \<Longrightarrow> ty \<noteq> COMPONENT \<Longrightarrow> moved st (advance st)"
      by (rule moved_advance_check) simp_all
    consider (c) "check COMPONENT st"
      | (s) "\<not> check COMPONENT st" "check SPACE st"
      | (y) "\<not> check COMPONENT st" "\<not> check SPACE st" "check STYLE st"
      | (o) "\<not> check COMPONENT st" "\<not> check SPACE st" "\<not> check STYLE st"
      by blast
    then show ?thesis
    proof cases
      case c
      with ne Suc.prems(1) obtain r st1 where
        pc: "parseComponent k st = Some (r, st1)" and
        l: "parse_loop k (case r of None \<Rightarrow> p | Some x \<Rightarrow> p\<lparr>components := components p @ [x]\<rparr>) st1
              = Some (p', st')"
        by (auto split: Option.bind_splits)
      from parseComponent_moved[OF pc c] obtain x where r: "r = Some x"
        and m: "moved (advance st) st1" by blast
      have adv: "advance st = st\<lparr>current := Suc (current st)\<rparr>" by (rule advance_at[OF c])
      have ah1: "ahead (advance st)"
        using ah ne rng unfolding adv ahead_def isAtEnd_def peek_def
        by (auto simp: less_Suc_eq) (metis Suc_leI le_neq_implies_less)
      have "count_type COMPONENT (take (current st1) (tokens st1)) =
            Suc (count_type COMPONENT (take (current st) (tokens st)))"
        using moved_count_COMPONENT[OF m ah1] rng check_peek[OF c]
        by (simp add: adv count_take_Suc peek_def)
      moreover have "count_type SPACE (take (current st) (tokens st)) \<le>
            count_type SPACE (take (current st1) (tokens st1))"
        "count_type STYLE (take (current st) (tokens st)) \<le>
            count_type STYLE (take (current st1) (tokens st1))"
        using moved_count_mono[OF m, of SPACE] moved_count_mono[OF m, of STYLE]
          count_take_mono[of "current st" "Suc (current st)"]
        by (auto simp: adv intro: le_trans)
      ultimately have "counted (p\<lparr>components := components p @ [x]\<rparr>) st1"
        using Suc.prems(2) moved_ahead[OF m ah1] by (auto simp: counted_def)
      from Suc.IH[OF l[unfolded r, simplified] this] moved_tokens[OF m] show ?thesis
        by (simp add: adv)
    next
      case s
      with ne Suc.prems(1) obtain r st1 where
        ps: "parseSpace k st = Some (r, st1)" and
        l: "parse_loop k (case r of None \<Rightarrow> p | Some x \<Rightarrow> p\<lparr>spaces := spaces p @ [x]\<rparr>) st1
              = Some (p', st')"
        by (auto split: Option.bind_splits)
      have adv: "advance st = st\<lparr>current := Suc (current st)\<rparr>" by (rule advance_at[OF s(2)])
      have m: "moved st st1" using parseSpace_moved[OF ps] by simp
      from ps s(2) have m1: "moved (advance st) st1"
        by (auto simp: parseSpace_def Let_def split: Option.bind_splits prod.splits
            elim!: space_body_moved intro!: moved_consume
            dest!: arg_cong[where f=snd and y="(_, _)"])
      have "Suc (count_type SPACE (take (current st) (tokens st))) \<le>
            count_type SPACE (take (current st1) (tokens st1))"
        using moved_count_mono[OF m1, of SPACE] rng check_peek[OF s(2)]
        by (simp add: adv count_take_Suc peek_def)
      moreover have "count_type STYLE (take (current st) (tokens st)) \<le>
            count_type STYLE (take (current st1) (tokens st1))"
        using moved_count_mono[OF m] .
      ultimately have "counted (case r of None \<Rightarrow> p | Some x \<Rightarrow> p\<lparr>spaces := spaces p @ [x]\<rparr>) st1"
        using Suc.prems(2) moved_ahead[OF m ah] moved_count_COMPONENT[OF m ah]
        by (auto simp: counted_def split: option.splits)
      from Suc.IH[OF l this] moved_tokens[OF m] show ?thesis by simp
    next
      case y
      with ne Suc.prems(1) obtain r st1 where
        ps: "parseStyle k st = Some (r, st1)" and
        l: "parse_loop k (case r of None \<Rightarrow> p | Some x \<Rightarrow> p\<lparr>styles := styles p @ [x]\<rparr>) st1
              = Some (p', st')"
        by (auto split: Option.bind_splits)
      have adv: "advance st = st\<lparr>current := Suc (current st)\<rparr>" by (rule advance_at[OF y(3)])
      have m: "moved st st1" using parseStyle_moved[OF ps] by simp
      from ps y(3) have m1: "moved (advance st) st1"
        by (auto simp: parseStyle_def Let_def split: Option.bind_splits
            elim!: style_rules_moved intro!: moved_consume)
      have "Suc (count_type STYLE (take (current st) (tokens st))) \<le>
            count_type STYLE (take (current st1) (tokens st1))"
        using moved_count_mono[OF m1, of STYLE] rng check_peek[OF y(3)]
        by (simp add: adv count_take_Suc peek_def)
      moreover have "count_type SPACE (take (current st) (tokens st)) \<le>
            count_type SPACE (take (current st1) (tokens st1))"
        using moved_count_mono[OF m] .
      ultimately have "counted (case r of None \<Rightarrow> p | Some x \<Rightarrow> p\<lparr>styles := styles p @ [x]\<rparr>) st1"
        using Suc.prems(2) moved_ahead[OF m ah] moved_count_COMPONENT[OF m ah]
        by (auto simp: counted_def split: option.splits)
      from Suc.IH[OF l this] moved_tokens[OF m] show ?thesis by simp
    next
      case o
      with ne Suc.prems(1) obtain st1 where
        sy: "synchronize k (error ''Expected component, space or style declaration'' st) = Some st1"
        and l: "parse_loop k p st1 = Some (p', st')"
        by (auto split: Option.bind_splits)
      have "ttype (peek st) \<noteq> COMPONENT" using o(1) ne by (simp add: check_def)
      with synchronize_moved[OF sy, of st] have m: "moved st st1" by simp
      have "counted p st1"
        using Suc.prems(2) moved_ahead[OF m ah] moved_count_COMPONENT[OF m ah]
          moved_count_mono[OF m, of SPACE] moved_count_mono[OF m, of STYLE]
        by (auto simp: counted_def)
      from Suc.IH[OF l this] moved_tokens[OF m] show ?thesis by simp
    qed
  qed
qed

section \<open>The lexer reads the whole input\<close>

declare scan.simps [simp del]

lemma scan_consumes_all: "input (scan st) = []"
proof (induction st rule: scan.induct)
  case (1 st)
  show ?case
  proof (cases "input st = []")
    case True
    then show ?thesis by (simp add: scan.simps[of st])
  next
    case False
    show ?thesis
    proof (cases "input (skipWhitespaceExceptNewline st) = []")
      case True
      with False show ?thesis by (simp add: scan.simps[of st])
    next
      case f: False
      from 1[OF False refl f] False f show ?thesis
        by (simp add: scan.simps[of st])
    qed
  qed
qed

text \<open>\<open>grows st st'\<close>: the tokens and errors of \<open>st\<close> are still there in \<open>st'\<close>, in front.\<close>

definition grows :: "lexer \<Rightarrow> lexer \<Rightarrow> bool" where
  "grows st st' \<longleftrightarrow>
     (\<exists>ts. lex_tokens st' = lex_tokens st @ ts \<and> EOF \<notin> ttype ` set ts) \<and>
     (\<exists>es. lex_errors st' = lex_errors st @ es)"

lemma grows_refl [simp]: "grows st st"
  by (simp add: grows_def)

lemma grows_trans: "grows a b \<Longrightarrow> grows b c \<Longrightarrow> grows a c"
  by (auto simp: grows_def)

lemma grows_consumed [simp]: "grows a (consumed r st) = grows a st"
  by (simp add: grows_def consumed_def)

lemma grows_advance [simp]: "grows a (Lexer_advance st) = grows a st"
  by (simp add: grows_def Lexer_advance_def)

lemma grows_addError: "grows a st \<Longrightarrow> grows a (addError msg c st)"
  by (auto simp: grows_def addError_def)

lemma grows_addTokenAt: "grows a st \<Longrightarrow> ty \<noteq> EOF \<Longrightarrow> grows a (addTokenAt ty v c st)"
  by (auto simp: grows_def addTokenAt_def)

lemma grows_addToken: "grows a st \<Longrightarrow> ty \<noteq> EOF \<Longrightarrow> grows a (addToken ty v st)"
  by (simp add: addToken_def grows_addTokenAt)

lemma grows_funpow_addToken:
  "grows a st \<Longrightarrow> ty \<noteq> EOF \<Longrightarrow> grows a ((addToken ty v ^^ k) st)"
  by (induction k) (simp_all add: grows_addToken)

lemma grows_stack [simp]: "grows a (st\<lparr>indentStack := s\<rparr>) = grows a st"
  by (simp add: grows_def)

lemma grows_line [simp]: "grows a (st\<lparr>line := l, column := c\<rparr>) = grows a st"
  by (simp add: grows_def)

lemma keyword_type_not_EOF: "keyword_type v \<noteq> EOF"
proof (cases "map_of KEYWORDS v")
  case None
  then show ?thesis by (simp add: keyword_type_def)
next
  case (Some ty)
  from map_of_SomeD[OF this] have "ty \<noteq> EOF" by (auto simp: KEYWORDS_def)
  with Some show ?thesis by (simp add: keyword_type_def)
qed

lemma twoCharOps_not_EOF: "map_of twoCharOps v = Some ty \<Longrightarrow> ty \<noteq> EOF"
  by (drule map_of_SomeD) (auto simp: twoCharOps_def)

lemma singleCharOps_not_EOF: "map_of singleCharOps v = Some ty \<Longrightarrow> ty \<noteq> EOF"
  by (drule map_of_SomeD) (auto simp: singleCharOps_def)

lemma handleNewline_grows:
  assumes "grows a st"
  shows "grows a (handleNewline st)"
proof -
  let ?st1 = "addToken NEWLINE [CHR 0x0A] st"
  let ?st2 = "(Lexer_advance ?st1)\<lparr>line := line ?st1 + 1, column := 1\<rparr>"
  obtain w st3 where m: "measureIndent ?st2 = (w, st3)" by (cases "measureIndent ?st2") auto
  have g1: "grows a ?st1" using assms by (simp add: grows_addToken)
  then have g2: "grows a ?st2" by simp
  from m have "st3 = consumed (dropWhile isIndent (input ?st2)) ?st2"
    by (auto simp: measureIndent_def)
  with g2 have g3: "grows a st3" by simp
  obtain s k where d: "dedent w (indentStack st3) = (s, k)" by (cases "dedent w (indentStack st3)") auto
  have g4: "grows a (((addToken DEDENT [] ^^ k) st3)\<lparr>indentStack := s\<rparr>)"
    using g3 by (simp add: grows_funpow_addToken)
  have g5: "grows a (addToken INDENT [] (st3\<lparr>indentStack := w # indentStack st3\<rparr>))"
    using g3 by (simp add: grows_addToken)
  show ?thesis
    using m d g3 g4 g5
    by (simp add: handleNewline_def Let_def grows_addError)
qed

lemma skipComment_grows: "grows a st \<Longrightarrow> grows a (skipComment st)"
  by (simp add: skipComment_def)

lemma readIdentifierOrKeyword_grows: "grows a st \<Longrightarrow> grows a (readIdentifierOrKeyword st)"
  by (simp add: readIdentifierOrKeyword_def Let_def grows_addTokenAt keyword_type_not_EOF)

lemma readNumber_grows: "grows a st \<Longrightarrow> grows a (readNumber st)"
  by (simp add: readNumber_def Let_def grows_addTokenAt split: prod.splits)

lemma readString_grows: "grows a st \<Longrightarrow> grows a (readString q st)"
  by (simp add: readString_def grows_addTokenAt grows_addError split: prod.splits)

lemma readOperator_grows: "grows a st \<Longrightarrow> readOperator st = Some st1 \<Longrightarrow> grows a st1"
  by (auto simp: readOperator_def Let_def grows_addTokenAt
      split: option.splits dest: twoCharOps_not_EOF singleCharOps_not_EOF)

lemma scan_step_grows: "grows a st \<Longrightarrow> grows a (scan_step st)"
  using handleNewline_grows[of a st] skipComment_grows[of a st]
    readIdentifierOrKeyword_grows[of a st] readNumber_grows[of a st]
    readString_grows[of a st] readOperator_grows[of a st]
  by (simp add: scan_step_def Let_def grows_addError split: option.splits)

lemma scan_grows: "grows a st \<Longrightarrow> grows a (scan st)"
proof (induction st rule: scan.induct)
  case (1 st)
  show ?case
  proof (cases "input st = [] \<or> input (skipWhitespaceExceptNewline st) = []")
    case True
    with 1(2) show ?thesis
      by (auto simp: scan.simps[of st] skipWhitespaceExceptNewline_def)
  next
    case False
    have "grows a (scan_step (skipWhitespaceExceptNewline st))"
      using 1(2) by (auto intro!: scan_step_grows simp: skipWhitespaceExceptNewline_def)
    from 1(1)[OF _ refl _ this] False show ?thesis
      by (simp add: scan.simps[of st])
  qed
qed

text \<open>
  The state at the head of the loop of tokenize after \<open>k\<close> rounds, if the loop makes
  that many.
\<close>

fun scan_state :: "nat \<Rightarrow> lexer \<Rightarrow> lexer option" where
  "scan_state 0 st = Some st"
| "scan_state (Suc k) st =
     (if input st = [] then None
      else
        (let st1 = skipWhitespaceExceptNewline st in
         if input st1 = [] then None else scan_state k (scan_step st1)))"

lemma scan_state_scan: "scan_state k st = Some st' \<Longrightarrow> scan st' = scan st"
proof (induction k arbitrary: st)
  case 0
  then show ?case by simp
next
  case (Suc k)
  from Suc.prems have ne: "input st \<noteq> []" "input (skipWhitespaceExceptNewline st) \<noteq> []"
    and s: "scan_state k (scan_step (skipWhitespaceExceptNewline st)) = Some st'"
    by (auto simp: Let_def split: if_splits)
  have "scan st = scan (scan_step (skipWhitespaceExceptNewline st))"
    using ne by (subst scan.simps) (simp add: Let_def)
  with Suc.IH[OF s] show ?case by simp
qed

definition indentation_error :: "diag \<Rightarrow> bool" where
  "indentation_error d = (message d = ''Indentation error: inconsistent indentation'')"

definition indent_width :: "string \<Rightarrow> nat" where
  "indent_width cs = sum_list (map (\<lambda>c. if c = CHR '' '' then 1 else 4) (takeWhile isIndent cs))"

definition inconsistent_dedent :: "lexer \<Rightarrow> bool" where
  "inconsistent_dedent st =
     (case input (skipWhitespaceExceptNewline st) of
        [] \<Rightarrow> False
      | c # cs \<Rightarrow>
          c = CHR 0x0A \<and>
          (let w = indent_width cs in
           w < hd (indentStack st) \<and> hd (fst (dedent w (indentStack st))) \<noteq> w))"

lemma funpow_addToken:
  "(addToken ty v ^^ k) st =
   st\<lparr>lex_tokens := lex_tokens st @
        replicate k \<lparr>ttype = ty, tvalue = v, tline = line st, tcolumn = column st\<rparr>\<rparr>"
proof (induction k)
  case 0
  show ?case by simp
next
  case (Suc k)
  then show ?case
    by (simp add: addToken_def addTokenAt_def replicate_append_same)
qed

lemma handleNewline_records:
  assumes "input st = CHR 0x0A # cs" "indent_width cs < hd (indentStack st)"
    "hd (fst (dedent (indent_width cs) (indentStack st))) \<noteq> indent_width cs"
  shows "\<exists>d \<in> set (lex_errors (handleNewline st)). indentation_error d"
proof -
  obtain s k where d: "dedent (indent_width cs) (indentStack st) = (s, k)"
    by (cases "dedent (indent_width cs) (indentStack st)") auto
  with assms show ?thesis
    by (simp add: handleNewline_def Let_def measureIndent_def indent_width_def consumed_def
        addToken_def addTokenAt_def Lexer_advance_def addError_def funpow_addToken
        indentation_error_def)
qed

lemma grows_errors: "grows st st' \<Longrightarrow> set (lex_errors st) \<subseteq> set (lex_errors st')"
  by (auto simp: grows_def)

lemma scan_records:
  assumes "inconsistent_dedent st"
  shows "\<exists>d \<in> set (lex_errors (scan st)). indentation_error d"
proof -
  let ?st1 = "skipWhitespaceExceptNewline st"
  from assms obtain cs where i: "input ?st1 = CHR 0x0A # cs"
    and w: "indent_width cs < hd (indentStack st)"
      "hd (fst (dedent (indent_width cs) (indentStack st))) \<noteq> indent_width cs"
    by (auto simp: inconsistent_dedent_def Let_def split: list.splits)
  have stack: "indentStack ?st1 = indentStack st"
    by (simp add: skipWhitespaceExceptNewline_def consumed_def)
  have ne: "input st \<noteq> []"
    using i by (auto simp: skipWhitespaceExceptNewline_def consumed_def)
  have step: "scan_step ?st1 = handleNewline ?st1"
    using i by (simp add: scan_step_def)
  from handleNewline_records[OF i] w stack
  obtain d where d: "d \<in> set (lex_errors (handleNewline ?st1))" "indentation_error d"
    by auto
  have "scan st = scan (handleNewline ?st1)"
    using ne i step by (subst scan.simps) (simp add: Let_def)
  moreover have "grows (handleNewline ?st1) (scan (handleNewline ?st1))"
    by (rule scan_grows) simp
  ultimately show ?thesis
    using d grows_errors by fastforce
qed

definition dedent_token :: "lexer \<Rightarrow> token" where
  "dedent_token st = \<lparr>ttype = DEDENT, tvalue = [], tline = line st, tcolumn = column st\<rparr>"

definition eof_token :: "lexer \<Rightarrow> token" where
  "eof_token st = \<lparr>ttype = EOF, tvalue = [], tline = line st, tcolumn = column st\<rparr>"

lemma tokenize_shape:
  "tokenize source =
     (lex_tokens (scan (new_Lexer source)) @
        replicate (length (indentStack (scan (new_Lexer source))) - 1)
          (dedent_token (scan (new_Lexer source))) @
        [eof_token (scan (new_Lexer source))],
      lex_errors (scan (new_Lexer source)))"
  by (simp add: tokenize_def Let_def funpow_addToken addToken_def addTokenAt_def
      dedent_token_def eof_token_def)

lemma tokenize_EOF_last:
  assumes "tokenize source = (toks, errs)"
  shows "\<exists>body e. toks = body @ [e] \<and> ttype e = EOF \<and> EOF \<notin> ttype ` set body"
proof -
  have "grows (new_Lexer source) (scan (new_Lexer source))"
    by (rule scan_grows) simp
  then have "EOF \<notin> ttype ` set (lex_tokens (scan (new_Lexer source)))"
    by (auto simp: grows_def new_Lexer_def)
  with assms show ?thesis
    unfolding tokenize_shape
    by (intro exI[of _ "lex_tokens (scan (new_Lexer source)) @
        replicate (length (indentStack (scan (new_Lexer source))) - 1)
          (dedent_token (scan (new_Lexer source)))"] exI[of _ "eof_token (scan (new_Lexer source))"])
       (auto simp: dedent_token_def eof_token_def)
qed

subsection \<open>What parse counts\<close>

lemma at_end_take:
  assumes "ahead st" "isAtEnd st"
  shows "take (current st) (tokens st) = takeWhile (\<lambda>t. ttype t \<noteq> EOF) (tokens st)"
proof -
  from assms(1) have r: "current st < length (tokens st)" using ahead_in_range by blast
  show ?thesis
    using assms r
    by (intro takeWhile_eq_take_P_nth[symmetric]) (auto simp: ahead_def isAtEnd_def peek_def)
qed

lemma counted_initial:
  "EOF \<in> ttype ` set (tokens (new_Parser toks)) \<Longrightarrow>
   counted \<lparr>components = [], spaces = [], styles = []\<rparr> (new_Parser toks)"
proof -
  assume "EOF \<in> ttype ` set (tokens (new_Parser toks))"
  then obtain j where "j < length (tokens (new_Parser toks))"
    "ttype (tokens (new_Parser toks) ! j) = EOF"
    by (auto simp: in_set_conv_nth)
  then have "ahead (new_Parser toks)"
    unfolding ahead_def by (auto simp: new_Parser_def)
  then show ?thesis
    by (simp add: counted_def count_type_def new_Parser_def)
qed

lemma parse_result:
  assumes "parse n toks = Some (ast, errs)"
  shows "\<exists>p st. parse_loop n \<lparr>components = [], spaces = [], styles = []\<rparr> (new_Parser toks) = Some (p, st) \<and>
     ast = (if components p \<noteq> [] then Some p else None) \<and> errs = errors st \<and>
     length (components p) =
       count_type COMPONENT (takeWhile (\<lambda>t. ttype t \<noteq> EOF) (tokens (new_Parser toks))) \<and>
     length (spaces p) \<le>
       count_type SPACE (takeWhile (\<lambda>t. ttype t \<noteq> EOF) (tokens (new_Parser toks))) \<and>
     length (styles p) \<le>
       count_type STYLE (takeWhile (\<lambda>t. ttype t \<noteq> EOF) (tokens (new_Parser toks)))"
proof -
  from assms have e: "EOF \<in> ttype ` set (tokens (new_Parser toks))"
    by (auto simp: parse_def Let_def split: if_splits)
  with assms obtain p st where
    l: "parse_loop n \<lparr>components = [], spaces = [], styles = []\<rparr> (new_Parser toks) = Some (p, st)"
    and r: "ast = (if components p \<noteq> [] then Some p else None)" "errs = errors st"
    by (auto simp: parse_def Let_def split: if_splits Option.bind_splits)
  from parse_loop_counted[OF l counted_initial[OF e]]
  have c: "counted p st" "isAtEnd st" "tokens st = tokens (new_Parser toks)" by auto
  from c(1) have "ahead st" by (simp add: counted_def)
  from at_end_take[OF this c(2)] c show ?thesis
    using l r by (auto simp: counted_def)
qed

lemma count_type_filter:
  "\<not> structural ty \<Longrightarrow>
   count_type ty (filter (\<lambda>t. \<not> structural (ttype t)) toks) = count_type ty toks"
  by (induction toks) (auto simp: count_type_def)

lemma lexed_before_EOF:
  assumes "tokenize source = (toks, errs)"
  shows "count_type ty (takeWhile (\<lambda>t. ttype t \<noteq> EOF) (tokens (new_Parser toks))) =
         (if structural ty \<or> ty = EOF then 0 else count_type ty toks)"
proof -
  from tokenize_EOF_last[OF assms] obtain body e where
    t: "toks = body @ [e]" "ttype e = EOF" "EOF \<notin> ttype ` set body" by blast
  let ?f = "filter (\<lambda>t. \<not> structural (ttype t))"
  have 1: "tokens (new_Parser toks) = ?f body @ [e]"
    using t by (simp add: new_Parser_def structural_def)
  have nb: "\<And>x. x \<in> set body \<Longrightarrow> ttype x \<noteq> EOF"
    using t(3) by (metis imageI)
  have 2: "takeWhile (\<lambda>t. ttype t \<noteq> EOF) (?f body @ [e]) = ?f body"
    using t(2) nb by (subst takeWhile_append2) auto
  show ?thesis
  proof (cases "structural ty \<or> ty = EOF")
    case True
    with nb show ?thesis
      unfolding 1 2 by (auto simp: count_type_def filter_empty_conv)
  next
    case False
    then have "count_type ty (?f body) = count_type ty body" by (simp add: count_type_filter)
    also have "\<dots> = count_type ty toks" using t False by (auto simp: count_type_def)
    finally show ?thesis using False unfolding 1 2 by simp
  qed
qed

subsection \<open>A style block the parser never leaves\<close>

text \<open>
  The rule loop of parseStyle stops at the end of the input and at a component, space or
  style keyword only. consume does not advance when the expected token is missing, so on
  any other token that is neither a dot nor an identifier (a number, say) an iteration
  consumes nothing and the loop runs for ever: parse has no result, whatever the fuel.
\<close>

lemma style_rules_stuck:
  "current st < length (tokens st) \<Longrightarrow> ttype (tokens st ! current st) = NUMBER \<Longrightarrow>
   style_rules k rs st = None"
proof (induction k arbitrary: rs st)
  case 0
  show ?case by simp
next
  case (Suc k)
  have c: "\<And>ty. check ty st = (ty = NUMBER)" "\<not> isAtEnd st"
    using Suc.prems by (auto simp: check_def isAtEnd_def peek_def)
  let ?st3 = "error ''Expected : after selector'' (error ''Expected class name''
       (error ''Expected . for class selector'' st))"
  have st3: "current ?st3 = current st" "tokens ?st3 = tokens st"
    by (simp_all add: error_def)
  have c3: "\<And>ty. check ty ?st3 = (ty = NUMBER)" "\<not> isAtEnd ?st3"
    using c by simp_all
  have "style_rules (Suc k) rs st =
      do { (properties, st4) \<leftarrow> style_properties k [] ?st3;
           style_rules k (rs @ [StyleRule (''.'' @ tvalue (peek st)) properties]) st4 }"
    using c by (simp add: consume_def Let_def)
  also have "\<dots> = None"
  proof (cases k)
    case 0
    then show ?thesis by simp
  next
    case (Suc k')
    have "style_properties k [] ?st3 = Some ([], ?st3)"
      unfolding Suc using c3 by simp
    moreover have "\<And>rs'. style_rules k rs' ?st3 = None"
      using Suc.prems by (intro Suc.IH) (simp_all add: st3)
    ultimately show ?thesis by simp
  qed
  finally show ?case .
qed

definition stuck_source :: string where
  "stuck_source = ''style:\<newline>  5''"

lemma stuck_tokens:
  "new_Parser (fst (tokenize stuck_source)) =
     \<lparr>tokens = [\<lparr>ttype = STYLE, tvalue = ''style'', tline = 1, tcolumn = 1\<rparr>,
                \<lparr>ttype = COLON, tvalue = '':'', tline = 1, tcolumn = 6\<rparr>,
                \<lparr>ttype = NUMBER, tvalue = ''5'', tline = 2, tcolumn = 3\<rparr>,
                \<lparr>ttype = EOF, tvalue = [], tline = 2, tcolumn = 4\<rparr>],
      current = 0, errors = []\<rparr>"
  by code_simp

lemma parse_stuck: "parse n (fst (tokenize stuck_source)) = None"
proof (cases n)
  case 0
  then show ?thesis by (simp add: parse_def Let_def)
next
  case (Suc k)
  let ?st = "new_Parser (fst (tokenize stuck_source))"
  have c: "\<not> isAtEnd ?st" "\<not> check COMPONENT ?st" "\<not> check SPACE ?st" "check STYLE ?st"
    unfolding stuck_tokens by (simp_all add: check_def isAtEnd_def peek_def)
  let ?st2 = "snd (consume COLON ''Expected : after style'' (advance ?st))"
  have "current ?st2 = 2 \<and> tokens ?st2 = tokens ?st"
    unfolding stuck_tokens
    by (simp add: consume_def advance_def check_def isAtEnd_def peek_def Let_def)
  then have "style_rules k [] ?st2 = None"
    by (intro style_rules_stuck) (simp_all add: stuck_tokens)
  then have "parseStyle k ?st = None"
    using c by (simp add: parseStyle_def Let_def)
  then have "parse_loop n \<lparr>components = [], spaces = [], styles = []\<rparr> ?st = None"
    using c by (simp add: Suc)
  then show ?thesis by (simp add: parse_def Let_def)
qed

section \<open>Images without an alt attribute\<close>

text \<open>
  The img elements of a tree that carry no alt attribute, by their positions, in
  document order: an element before its children, children from left to right, the
  branches of a conditional and the body of a loop included.
\<close>

fun element_images :: "ElementNode \<Rightarrow> (nat \<times> nat) list"
  and child_images :: "Child \<Rightarrow> (nat \<times> nat) list"
where
  "element_images (ElementNode tg attrs kids rl aria l c) =
     (if tg = ''img'' \<and> ''alt'' \<notin> fst ` set attrs then [(l, c)] else []) @
     concat (map child_images kids)"
| "child_images (ElementChild e) = element_images e"
| "child_images (TextNode content interpolations l c) = []"
| "child_images (ConditionalNode cond cons alt l c) =
     concat (map child_images cons) @
     (case alt of None \<Rightarrow> [] | Some alts \<Rightarrow> concat (map child_images alts))"
| "child_images (LoopNode item idx iterable bdy l c) = concat (map child_images bdy)"
| "child_images (SlotNode l c) = []"

definition program_images :: "Program \<Rightarrow> (nat \<times> nat) list" where
  "program_images p = concat (map (\<lambda>c. concat (map element_images (c_body c))) (components p))"

definition image_error :: "nat \<times> nat \<Rightarrow> diag" where
  "image_error pos =
     \<lparr>message = ''Image element must have alt attribute'', dline = fst pos, dcolumn = snd pos\<rparr>"

text \<open>
  The types of ast.ts: the branches of a conditional and the body of a loop hold elements
  and text nodes only.
\<close>

definition element_or_text :: "Child \<Rightarrow> bool" where
  "element_or_text k =
     (case k of ElementChild e \<Rightarrow> True | TextNode content interpolations l c \<Rightarrow> True | _ \<Rightarrow> False)"

fun typed_element :: "ElementNode \<Rightarrow> bool"
  and typed_child :: "Child \<Rightarrow> bool"
where
  "typed_element (ElementNode tg attrs kids rl aria l c) = (\<forall>k \<in> set kids. typed_child k)"
| "typed_child (ElementChild e) = typed_element e"
| "typed_child (TextNode content interpolations l c) = True"
| "typed_child (ConditionalNode cond cons alt l c) =
     ((\<forall>k \<in> set cons. element_or_text k \<and> typed_child k) \<and>
      (case alt of None \<Rightarrow> True | Some alts \<Rightarrow> \<forall>k \<in> set alts. element_or_text k \<and> typed_child k))"
| "typed_child (LoopNode item idx iterable bdy l c) =
     (\<forall>k \<in> set bdy. element_or_text k \<and> typed_child k)"
| "typed_child (SlotNode l c) = True"

definition typed_program :: "Program \<Rightarrow> bool" where
  "typed_program p = (\<forall>c \<in> set (components p). \<forall>e \<in> set (c_body c). typed_element e)"

text \<open>No name is declared twice in a component, as a state or as a computed value.\<close>

definition distinct_names :: "ComponentNode \<Rightarrow> bool" where
  "distinct_names c = distinct (map sd_name (c_states c) @ map cd_name (c_computed c))"

subsection \<open>What the analyzer reports\<close>

lemma fold_errors:
  assumes "\<And>k a. k \<in> set ks \<Longrightarrow> sem_errors (F k a) = sem_errors a @ map image_error (h k)"
  shows "sem_errors (fold F ks a) = sem_errors a @ map image_error (concat (map h ks))"
  using assms by (induction ks arbitrary: a) simp_all

lemma analyze_tree:
  shows "typed_element e \<Longrightarrow>
      \<forall>a. sem_errors (analyzeElement e a) = sem_errors a @ map image_error (element_images e)"
    and "typed_child k \<Longrightarrow>
      (\<forall>a. sem_errors (analyzeChild k a) = sem_errors a @ map image_error (child_images k)) \<and>
      (element_or_text k \<longrightarrow>
         (\<forall>a. sem_errors (analyzeNode k a) = sem_errors a @ map image_error (child_images k)))"
proof (induction e and k rule: element_images_child_images.induct)
  case (1 tg attrs kids rl aria l c)
  have "sem_errors (fold analyzeChild kids b) =
      sem_errors b @ map image_error (concat (map child_images kids))" for b
    using 1 by (intro fold_errors) simp
  moreover have "list_ex (\<lambda>attr. fst attr = ''alt'') attrs \<longleftrightarrow> ''alt'' \<in> fst ` set attrs"
    by (force simp: list_ex_iff)
  ultimately show ?case
    by (simp add: Let_def push_error_def push_warning_def image_error_def)
next
  case (2 e)
  then show ?case by (simp add: element_or_text_def)
next
  case (3 content interpolations l c)
  show ?case by simp
next
  case (4 cond cons alt l c)
  have c: "sem_errors (fold analyzeNode cons b) =
      sem_errors b @ map image_error (concat (map child_images cons))" for b
    using 4(1) 4(3) by (intro fold_errors) simp
  have "sem_errors (fold analyzeNode alts b) =
      sem_errors b @ map image_error (concat (map child_images alts))" if "alt = Some alts" for alts b
    using 4(2)[OF that] 4(3) that by (intro fold_errors) simp
  with c show ?case
    by (simp add: Let_def element_or_text_def split: option.splits)
next
  case (5 item idx iterable bdy l c)
  have "sem_errors (fold analyzeNode bdy b) =
      sem_errors b @ map image_error (concat (map child_images bdy))" for b
    using 5 by (intro fold_errors) simp
  then show ?case
    by (simp add: Let_def element_or_text_def split: option.splits)
next
  case (6 l c)
  show ?case by (simp add: element_or_text_def)
qed

lemma analyzeElement_errors:
  "typed_element e \<Longrightarrow>
   sem_errors (analyzeElement e a) = sem_errors a @ map image_error (element_images e)"
  using analyze_tree(1)[of e] by simp

definition image_errors :: "diag list \<Rightarrow> diag list" where
  "image_errors ds = filter (\<lambda>d. message d = ''Image element must have alt attribute'') ds"

lemma image_errors_simps [simp]:
  "image_errors [] = []"
  "image_errors (xs @ ys) = image_errors xs @ image_errors ys"
  "image_errors (map image_error ps) = map image_error ps"
  by (simp_all add: image_errors_def image_error_def filter_id_conv)

lemma fold_warnings:
  "sem_errors (fold (\<lambda>dep b. if P dep b then push_warning (m dep) l c b else b) deps a) = sem_errors a \<and>
   declaredVariables (fold (\<lambda>dep b. if P dep b then push_warning (m dep) l c b else b) deps a) =
     declaredVariables a"
  by (induction deps arbitrary: a) (simp_all add: push_warning_def)

lemma declare_state_simps:
  "sem_errors (declare_state s a) =
     sem_errors a @
     (if sd_name s \<in> declaredVariables a
      then [\<lparr>message = ''Duplicate state declaration: '' @ sd_name s, dline = sd_line s,
             dcolumn = sd_column s\<rparr>]
      else [])"
  "declaredVariables (declare_state s a) = insert (sd_name s) (declaredVariables a)"
  by (simp_all add: declare_state_def Let_def push_error_def)

lemma declare_computed_simps:
  "sem_errors (declare_computed c a) =
     sem_errors a @
     (if cd_name c \<in> declaredVariables a
      then [\<lparr>message = ''Duplicate computed declaration: '' @ cd_name c, dline = cd_line c,
             dcolumn = cd_column c\<rparr>]
      else [])"
  "declaredVariables (declare_computed c a) = insert (cd_name c) (declaredVariables a)"
  unfolding declare_computed_def Let_def
  using fold_warnings[of "\<lambda>dep b. dep \<notin> declaredVariables b"]
  by (simp_all add: push_error_def)

lemma check_effect_simps:
  "sem_errors (check_effect e a) = sem_errors a"
  "declaredVariables (check_effect e a) = declaredVariables a"
  unfolding check_effect_def
  using fold_warnings[of "\<lambda>dep b. dep \<notin> declaredVariables b"]
  by simp_all

lemma validateAccessibility_errors:
  "sem_errors (validateAccessibility c a) = sem_errors a"
  by (simp add: validateAccessibility_def Let_def push_warning_def)

lemma fold_check_effect: "sem_errors (fold check_effect es a) = sem_errors a"
  by (induction es arbitrary: a) (simp_all add: check_effect_simps)

lemma fold_declare_state:
  "declaredVariables (fold declare_state ss a) = declaredVariables a \<union> sd_name ` set ss"
  "image_errors (sem_errors (fold declare_state ss a)) = image_errors (sem_errors a)"
  "distinct (map sd_name ss) \<Longrightarrow> sd_name ` set ss \<inter> declaredVariables a = {} \<Longrightarrow>
     sem_errors (fold declare_state ss a) = sem_errors a"
proof -
  show "declaredVariables (fold declare_state ss a) = declaredVariables a \<union> sd_name ` set ss"
    by (induction ss arbitrary: a) (auto simp: declare_state_simps)
  show "image_errors (sem_errors (fold declare_state ss a)) = image_errors (sem_errors a)"
    by (induction ss arbitrary: a) (simp_all add: declare_state_simps image_errors_def)
  show "distinct (map sd_name ss) \<Longrightarrow> sd_name ` set ss \<inter> declaredVariables a = {} \<Longrightarrow>
     sem_errors (fold declare_state ss a) = sem_errors a"
  proof (induction ss arbitrary: a)
    case Nil
    show ?case by simp
  next
    case (Cons s ss)
    have "sem_errors (fold declare_state ss (declare_state s a)) = sem_errors (declare_state s a)"
      using Cons.prems by (intro Cons.IH) (auto simp: declare_state_simps)
    with Cons.prems show ?case by (auto simp: declare_state_simps)
  qed
qed

lemma fold_declare_computed:
  "image_errors (sem_errors (fold declare_computed cs a)) = image_errors (sem_errors a)"
  "distinct (map cd_name cs) \<Longrightarrow> cd_name ` set cs \<inter> declaredVariables a = {} \<Longrightarrow>
     sem_errors (fold declare_computed cs a) = sem_errors a"
proof -
  show "image_errors (sem_errors (fold declare_computed cs a)) = image_errors (sem_errors a)"
    by (induction cs arbitrary: a) (simp_all add: declare_computed_simps image_errors_def)
  show "distinct (map cd_name cs) \<Longrightarrow> cd_name ` set cs \<inter> declaredVariables a = {} \<Longrightarrow>
     sem_errors (fold declare_computed cs a) = sem_errors a"
  proof (induction cs arbitrary: a)
    case Nil
    show ?case by simp
  next
    case (Cons c cs)
    have "sem_errors (fold declare_computed cs (declare_computed c a)) =
        sem_errors (declare_computed c a)"
      using Cons.prems by (intro Cons.IH) (auto simp: declare_computed_simps)
    with Cons.prems show ?case by (auto simp: declare_computed_simps)
  qed
qed

lemma fold_analyzeElement:
  "\<forall>e \<in> set es. typed_element e \<Longrightarrow>
   sem_errors (fold analyzeElement es a) =
     sem_errors a @ map image_error (concat (map element_images es))"
  by (intro fold_errors) (simp add: analyzeElement_errors)

lemma analyzeComponent_errors:
  assumes "\<forall>e \<in> set (c_body c). typed_element e"
  shows "image_errors (sem_errors (analyzeComponent c a)) =
       image_errors (sem_errors a) @ map image_error (concat (map element_images (c_body c)))"
    and "distinct_names c \<Longrightarrow>
       sem_errors (analyzeComponent c a) =
         sem_errors a @ map image_error (concat (map element_images (c_body c)))"
proof -
  let ?a0 = "a\<lparr>declaredVariables := {}\<rparr>"
  let ?a1 = "fold declare_state (c_states c) ?a0"
  let ?a2 = "fold declare_computed (c_computed c) ?a1"
  let ?a4 = "validateAccessibility c (fold check_effect (c_effects c) ?a2)"
  have b: "sem_errors (analyzeComponent c a) =
      sem_errors ?a2 @ map image_error (concat (map element_images (c_body c)))"
    by (simp add: analyzeComponent_def Let_def fold_analyzeElement[OF assms]
        validateAccessibility_errors fold_check_effect)
  show "image_errors (sem_errors (analyzeComponent c a)) =
       image_errors (sem_errors a) @ map image_error (concat (map element_images (c_body c)))"
    unfolding b by (simp add: fold_declare_computed(1) fold_declare_state(2))
  assume d: "distinct_names c"
  then have "sem_errors ?a1 = sem_errors a"
    using fold_declare_state(3)[of "c_states c" ?a0] by (simp add: distinct_names_def)
  moreover have "sem_errors ?a2 = sem_errors ?a1"
    using d by (intro fold_declare_computed(2)) (auto simp: distinct_names_def fold_declare_state(1))
  ultimately show "sem_errors (analyzeComponent c a) =
         sem_errors a @ map image_error (concat (map element_images (c_body c)))"
    unfolding b by simp
qed

lemma fold_analyzeComponent:
  assumes "\<forall>c \<in> set cs. \<forall>e \<in> set (c_body c). typed_element e"
  shows "image_errors (sem_errors (fold analyzeComponent cs a)) =
       image_errors (sem_errors a) @
       map image_error (concat (map (\<lambda>c. concat (map element_images (c_body c))) cs))"
    and "\<forall>c \<in> set cs. distinct_names c \<Longrightarrow>
       sem_errors (fold analyzeComponent cs a) =
         sem_errors a @
         map image_error (concat (map (\<lambda>c. concat (map element_images (c_body c))) cs))"
  using assms
  by (induction cs arbitrary: a) (simp_all add: analyzeComponent_errors)

lemma analyze_images:
  assumes "typed_program p"
  shows "image_errors (fst (analyze p)) = map image_error (program_images p)"
    and "\<forall>c \<in> set (components p). distinct_names c \<Longrightarrow>
       fst (analyze p) = map image_error (program_images p)"
  using fold_analyzeComponent[of "components p"] assms
  by (simp_all add: analyze_def Let_def program_images_def typed_program_def)

subsection \<open>The parser builds trees of these types\<close>

definition yields_typed :: "ElementNode parsing \<Rightarrow> bool" where
  "yields_typed pel \<longleftrightarrow> (\<forall>st el st'. pel st = Some (el, st') \<longrightarrow> typed_element el)"

lemma yields_typedD: "yields_typed pel \<Longrightarrow> pel st = Some (el, st') \<Longrightarrow> typed_element el"
  by (auto simp: yields_typed_def)

lemma branch_typed:
  assumes "yields_typed pel"
    and "(if check IDENTIFIER st
           then do { (element, st') \<leftarrow> pel st; Some ([ElementChild element], st') }
           else Some ([], st)) = Some (r, st')"
  shows "\<forall>k \<in> set r. element_or_text k \<and> typed_child k"
  using assms(2)
  by (auto simp: element_or_text_def split: if_splits Option.bind_splits
      intro: yields_typedD[OF assms(1)])

lemma parseConditional_shape:
  "parseConditional n pel st = Some (r, st') \<Longrightarrow>
   \<exists>c br l c'. r = ConditionalNode c br None l c' \<and>
     (br = [] \<or> (\<exists>s el s'. br = [ElementChild el] \<and> pel s = Some (el, s')))"
  by (auto simp: parseConditional_def Let_def split: Option.bind_splits if_splits) blast

lemma parseLoop_shape:
  "parseLoop n pel st = Some (r, st') \<Longrightarrow>
   \<exists>it c br l c'. r = LoopNode it None c br l c' \<and>
     (br = [] \<or> (\<exists>s el s'. br = [ElementChild el] \<and> pel s = Some (el, s')))"
  by (auto simp: parseLoop_def Let_def split: Option.bind_splits if_splits prod.splits) blast

lemma parseConditional_typed:
  assumes "yields_typed pel" "parseConditional n pel st = Some (r, st')"
  shows "typed_child r"
  using parseConditional_shape[OF assms(2)] yields_typedD[OF assms(1)]
  by (auto simp: element_or_text_def)

lemma parseLoop_typed:
  assumes "yields_typed pel" "parseLoop n pel st = Some (r, st')"
  shows "typed_child r"
  using parseLoop_shape[OF assms(2)] yields_typedD[OF assms(1)]
  by (auto simp: element_or_text_def)

lemma element_children_typed:
  "yields_typed pel \<Longrightarrow> element_children k pel kids st = Some (r, st') \<Longrightarrow>
   \<forall>x \<in> set kids. typed_child x \<Longrightarrow> \<forall>x \<in> set r. typed_child x"
proof (induction k arbitrary: kids st)
  case 0
  then show ?case by simp
next
  case (Suc k)
  note ty = Suc.prems(1)
  show ?case
  proof (cases "\<not> isAtEnd st \<and> check IDENTIFIER st")
    case True
    consider (w) "tvalue (peek st) = ''when''"
      | (e) "tvalue (peek st) \<noteq> ''when''" "tvalue (peek st) = ''each''"
      | (s) "tvalue (peek st) \<noteq> ''when''" "tvalue (peek st) \<noteq> ''each''" "tvalue (peek st) = ''slot''"
      | (el) "tvalue (peek st) \<noteq> ''when''" "tvalue (peek st) \<noteq> ''each''" "tvalue (peek st) \<noteq> ''slot''"
      by blast
    then show ?thesis
    proof cases
      case w
      with True Suc.prems(2) obtain c st1 where
        c: "parseConditional k pel st = Some (c, st1)" and
        l: "element_children k pel (kids @ [c]) st1 = Some (r, st')"
        by (auto split: Option.bind_splits)
      from parseConditional_typed[OF ty c] Suc.prems(3)
      have "\<forall>x \<in> set (kids @ [c]). typed_child x" by simp
      from Suc.IH[OF ty l this] show ?thesis .
    next
      case e
      with True Suc.prems(2) obtain c st1 where
        c: "parseLoop k pel st = Some (c, st1)" and
        l: "element_children k pel (kids @ [c]) st1 = Some (r, st')"
        by (auto split: Option.bind_splits)
      from parseLoop_typed[OF ty c] Suc.prems(3)
      have "\<forall>x \<in> set (kids @ [c]). typed_child x" by simp
      from Suc.IH[OF ty l this] show ?thesis .
    next
      case s
      with True Suc.prems(2) have
        l: "element_children k pel (kids @ [fst (parseSlot st)]) (snd (parseSlot st)) = Some (r, st')"
        by (auto simp: split_beta)
      have "typed_child (fst (parseSlot st))" by (simp add: parseSlot_def Let_def)
      with Suc.prems(3) have "\<forall>x \<in> set (kids @ [fst (parseSlot st)]). typed_child x" by simp
      from Suc.IH[OF ty l this] show ?thesis .
    next
      case el
      with True Suc.prems(2) obtain c st1 where
        c: "pel st = Some (c, st1)" and
        l: "element_children k pel (kids @ [ElementChild c]) st1 = Some (r, st')"
        by (auto split: Option.bind_splits)
      from c ty have "typed_element c" by (auto simp: yields_typed_def)
      with Suc.prems(3) have "\<forall>x \<in> set (kids @ [ElementChild c]). typed_child x" by simp
      from Suc.IH[OF ty l this] show ?thesis .
    qed
  next
    case False
    with Suc.prems show ?thesis by auto
  qed
qed

lemma parseElement_typed: "yields_typed (parseElement n)"
proof (induction n)
  case 0
  show ?case by (simp add: yields_typed_def)
next
  case (Suc n)
  show ?case
    unfolding yields_typed_def
  proof (intro allI impI)
    fix st r st'
    assume p: "parseElement (Suc n) st = Some (r, st')"
    obtain tg st1 where t: "consume IDENTIFIER ''Expected element tag'' st = (tg, st1)"
      by (cases "consume IDENTIFIER ''Expected element tag'' st") auto
    from p t obtain attrs st2 kids where
      c: "(if check COLON st2 then
             (if check STRING (advance st2) then
                (let st' = advance (advance st2); text = previous st' in
                 Some ([TextNode (tvalue text) [] (tline text) (tcolumn text)], st'))
              else element_children n (parseElement n) [] (advance st2))
           else Some ([], st2)) = Some (kids, st')"
      and r: "r = ElementNode (tvalue tg) attrs kids None None (tline (peek st)) (tcolumn (peek st))"
      by (auto simp: Let_def split: Option.bind_splits)
    have "\<forall>x \<in> set kids. typed_child x"
    proof (cases "check COLON st2 \<and> \<not> check STRING (advance st2)")
      case True
      with c have "element_children n (parseElement n) [] (advance st2) = Some (kids, st')"
        by simp
      from element_children_typed[OF Suc.IH this] show ?thesis by simp
    next
      case False
      with c show ?thesis by (auto simp: Let_def split: if_splits)
    qed
    with r show "typed_element r" by simp
  qed
qed

lemma component_body_typed:
  "component_body k c st = Some (r, st') \<Longrightarrow> \<forall>e \<in> set (c_body c). typed_element e \<Longrightarrow>
   \<forall>e \<in> set (c_body r). typed_element e"
proof (induction k arbitrary: c st)
  case 0
  then show ?case by simp
next
  case (Suc k)
  have el: "\<And>e s s'. parseElement k s = Some (e, s') \<Longrightarrow> typed_element e"
    using parseElement_typed[of k] by (auto simp: yields_typed_def)
  from Suc.prems show ?case
    by (simp split: if_splits Option.bind_splits prod.splits option.splits)
       (auto elim!: Suc.IH dest: el)
qed

lemma parseComponent_typed:
  "parseComponent n st = Some (Some c, st') \<Longrightarrow> \<forall>e \<in> set (c_body c). typed_element e"
  by (auto simp: parseComponent_def Let_def new_Component_def
      split: Option.bind_splits prod.splits if_splits
      dest!: component_body_typed)

lemma parse_loop_typed:
  "parse_loop k p st = Some (p', st') \<Longrightarrow> typed_program p \<Longrightarrow> typed_program p'"
proof (induction k arbitrary: p st)
  case 0
  then show ?case by simp
next
  case (Suc k)
  have c: "typed_program (case r of None \<Rightarrow> p | Some c \<Rightarrow> p\<lparr>components := components p @ [c]\<rparr>)"
    if "parseComponent k st = Some (r, s1)" for r s1
    using that Suc.prems(2) parseComponent_typed[of k st _ s1]
    by (cases r) (auto simp: typed_program_def)
  have o: "typed_program (case r of None \<Rightarrow> p | Some s \<Rightarrow> p\<lparr>spaces := spaces p @ [s]\<rparr>)"
    "typed_program (case r' of None \<Rightarrow> p | Some s \<Rightarrow> p\<lparr>styles := styles p @ [s]\<rparr>)" for r r'
    using Suc.prems(2) by (auto simp: typed_program_def split: option.splits)
  from Suc.prems show ?case
    by (simp split: if_splits Option.bind_splits)
       (auto elim!: Suc.IH intro: c o)
qed

lemma parse_typed:
  assumes "parse n toks = Some (Some p, errs)"
  shows "typed_program p"
proof -
  from assms obtain q st where
    l: "parse_loop n \<lparr>components = [], spaces = [], styles = []\<rparr> (new_Parser toks) = Some (q, st)"
    and q: "Some p = (if components q \<noteq> [] then Some q else None)"
    by (auto simp: parse_def Let_def split: if_splits Option.bind_splits)
  have "typed_program \<lparr>components = [], spaces = [], styles = []\<rparr>"
    by (simp add: typed_program_def)
  from parse_loop_typed[OF l this] q show ?thesis by (simp split: if_splits)
qed

section \<open>Claims\<close>

text \<open>
  C1. A signal \<open>s\<close> initialised to 0 and an effect whose closure reads \<open>s\<close>. Writing the
  value it already holds, \<open>s.set(0)\<close>, changes nothing and calls no closure. Writing a
  new value, \<open>s.set(1)\<close>, outside a batch does not call the closure exactly once: the
  effect unsubscribes and subscribes again while \<open>notify\<close> walks the subscriber set, the
  walk meets the new entry and executes the effect again, and so on; the call never
  returns, whatever the fuel.
\<close>

theorem set_changed_value_reruns_forever:
  "\<exists>st. createEffect 4 [Eval (Get 0)] None (snd (createSignal (Num 0) initial_runtime)) = Some (0, st) \<and>
     invocations st = [0] \<and> subscribers (signals st 0) = [Some 0] \<and>
     SignalNode_set 1 0 (Num 0) st = Some st \<and>
     (\<forall>n. SignalNode_set n 0 (Num 1) st = None)"
proof -
  have "\<exists>st. createEffect 4 [Eval (Get 0)] None (snd (createSignal (Num 0) initial_runtime)) = Some (0, st) \<and>
     invocations st = [0] \<and> subscribers (signals st 0) = [Some 0] \<and>
     SignalNode_set 1 0 (Num 0) st = Some st \<and>
     resubscribing 0 0 0 st \<and> sn_value (signals st 0) \<noteq> Num 1 \<and> batchDepth st = 0"
    by (simp add: runtime_defs resubscribing_def eval_nat_numeral)
  then show ?thesis
    using set_resubscribing_diverges by blast
qed




text \<open>
  C3. An effect is not executed again while it is executing. For an effect \<open>e\<close> that is in
  progress, \<open>Effect.execute\<close> returns at once with the state as it is; and whatever runs
  from there (the rest of its closure, a write to a signal it subscribed to and the
  notification that follows, other effects) leaves \<open>e\<close> in progress and calls its closure
  no further time.
\<close>

theorem running_effect_not_reentered:
  assumes "isRunning (effects st e)"
  shows "Effect_execute (Suc n) e st = Some st \<and>
    (run m c st = Some st' \<longrightarrow>
       isRunning (effects st' e) \<and>
       count_list (invocations st') e = count_list (invocations st) e)"
  using assms run_running[of m c st st' e]
  by (simp add: Effect_execute_def execute_body_def held_def)

text \<open>
  The witness: the closure \<open>() => { s(); s.set(s.peek() + 1) }\<close> at the moment
  Effect.execute has called it. Its write to \<open>s\<close> notifies the effect itself, which is
  not executed again; created by createEffect, the effect has run once.
\<close>

theorem running_effect_not_reentered_witness:
  "(\<exists>st1 st2. execute_enter 0 (snd (alloc_Effect self_writer None
        (snd (createSignal (Num 0) initial_runtime)))) = st1 \<and>
      isRunning (effects st1 0) \<and> Effect_execute 1 0 st1 = Some st1 \<and>
      run 6 (Exec self_writer) st1 = Some st2 \<and> signal_values st2 0 = Num 1 \<and>
      subscribers (signals st2 0) = [Some 0] \<and> isRunning (effects st2 0) \<and>
      count_list (invocations st2) 0 = count_list (invocations st1) 0) \<and>
   (\<exists>st. createEffect 8 self_writer None (snd (createSignal (Num 0) initial_runtime)) = Some (0, st) \<and>
      invocations st = [0])"
proof -
  define st1 where "st1 = execute_enter 0 (snd (alloc_Effect self_writer None
        (snd (createSignal (Num 0) initial_runtime))))"
  have r: "isRunning (effects st1 0)"
    by (simp add: st1_def self_writer_def runtime_defs)
  have "\<exists>st2. run 6 (Exec self_writer) st1 = Some st2 \<and> signal_values st2 0 = Num 1 \<and>
      subscribers (signals st2 0) = [Some 0]"
    by (simp add: st1_def self_writer_def runtime_defs eval_nat_numeral signal_values_def)
  then obtain st2 where s: "run 6 (Exec self_writer) st1 = Some st2"
    "signal_values st2 0 = Num 1" "subscribers (signals st2 0) = [Some 0]"
    by blast
  from running_effect_not_reentered[OF r, of 0 6 "Exec self_writer" st2] r s self_writer_once
  show ?thesis
    unfolding st1_def[symmetric] by auto
qed

definition no_result :: CompileResult where
  "no_result = \<lparr>code = [], r_errors = [], r_warnings = [], r_ast = None, r_explanation = None\<rparr>"

definition strict_options :: CompileOptions where
  "strict_options = \<lparr>strict = True, explain = False, minify = False\<rparr>"

definition no_code :: "Program \<Rightarrow> CompileOptions \<Rightarrow> string" where
  "no_code p options = ''generated''"

definition no_explanation :: "Program \<Rightarrow> string \<Rightarrow> string" where
  "no_explanation p c = []"

definition img_source :: string where
  "img_source = ''component C:\<newline>  img src=\"a.png\"\<newline>''"

definition nested_img_source :: string where
  "nested_img_source = ''component C:\<newline>  div:\<newline>    p:\<newline>      img\<newline>''"

definition img_program :: Program where
  "img_program =
     \<lparr>components =
        [\<lparr>c_name = ''C'', c_states = [], c_computed = [], c_effects = [], c_handlers = [],
          c_animations = [], c_styles = [],
          c_body = [ElementNode ''img'' [(''src'', Literal (StringValue ''a.png'') ''a.png'' 2 11)]
                      [] None None 2 3],
          accessibility = \<lparr>a_role = None, a_label = None, a_description = None\<rparr>,
          c_line = 1, c_column = 1\<rparr>], spaces = [], styles = []\<rparr>"

definition nested_img_program :: Program where
  "nested_img_program =
     \<lparr>components =
        [\<lparr>c_name = ''C'', c_states = [], c_computed = [], c_effects = [], c_handlers = [],
          c_animations = [], c_styles = [],
          c_body = [ElementNode ''div'' []
                      [ElementChild (ElementNode ''p'' []
                         [ElementChild (ElementNode ''img'' [] [] None None 4 7)] None None 3 5)]
                      None None 2 3],
          accessibility = \<lparr>a_role = None, a_label = None, a_description = None\<rparr>,
          c_line = 1, c_column = 1\<rparr>], spaces = [], styles = []\<rparr>"

lemma foo_tokens:
  "tokenize ''foo'' = ([\<lparr>ttype = IDENTIFIER, tvalue = ''foo'', tline = 1, tcolumn = 1\<rparr>,
      \<lparr>ttype = EOF, tvalue = [], tline = 1, tcolumn = 4\<rparr>], [])"
  by code_simp

lemma foo_parse:
  "parse 2 [\<lparr>ttype = IDENTIFIER, tvalue = ''foo'', tline = 1, tcolumn = 1\<rparr>,
      \<lparr>ttype = EOF, tvalue = [], tline = 1, tcolumn = 4\<rparr>] =
      Some (None, [\<lparr>message = ''Expected component, space or style declaration'',
                     dline = 1, dcolumn = 1\<rparr>])"
  by code_simp

lemma img_parse:
  "snd (tokenize img_source) = [] \<and>
   parse 12 (fst (tokenize img_source)) = Some (Some img_program, [])"
  by code_simp

lemma nested_img_parse:
  "snd (tokenize nested_img_source) = [] \<and>
   parse 14 (fst (tokenize nested_img_source)) = Some (Some nested_img_program, [])"
  by code_simp

lemma img_programs:
  "program_images img_program = [(2, 3)]" "list_all distinct_names (components img_program)"
  "program_images nested_img_program = [(4, 7)]"
  "list_all distinct_names (components nested_img_program)"
  by code_simp+

text \<open>
  C4, as the claim has it, fails on the empty source: the lexer reports nothing, the parser
  reports nothing and yields no syntax tree (there is no component), and compile returns
  empty code with an empty list of errors, for every code generator and all options.
\<close>

theorem compile_empty_source:
  "parse 1 (fst (tokenize [])) = Some (None, []) \<and>
   (\<forall>g x options. compile 1 g x [] options = Some no_result)"
proof -
  have "tokenize [] = ([\<lparr>ttype = EOF, tvalue = [], tline = 1, tcolumn = 1\<rparr>], [])" by code_simp
  moreover have "parse 1 [\<lparr>ttype = EOF, tvalue = [], tline = 1, tcolumn = 1\<rparr>] = Some (None, [])"
    by code_simp
  ultimately show ?thesis by (simp add: compile_def no_result_def)
qed

text \<open>
  C4, amended. compile emits no code in the presence of errors, and the errors it returns
  are those of the first stage that failed. If the lexer reports errors, the code is empty
  and the errors are the lexer's. Otherwise, if the parser reports errors or yields no
  syntax tree, the code is empty and the errors are the parser's (an empty list when the
  parser only found no component). Otherwise, in strict mode, if the analyzer reports
  errors, the code is empty and the errors are the analyzer's.

  Images: for every program that the parser returns without errors, the analyzer's
  "Image element must have alt attribute" errors are exactly the img elements without an
  alt attribute anywhere in the element trees of the components, one error each, at the
  element's position, in document order. So in strict mode a component that contains
  such an element compiles to empty code and a list of errors that is not empty; and
  where no name is declared twice (the analyzer's only other error) these are all the
  errors: exactly one for exactly one such element. All this for every code generator
  \<open>g\<close> and explanation printer \<open>x\<close>.
\<close>

theorem compile_no_code_on_errors:
  assumes "tokenize source = (toks, lexerErrors)"
  shows "(lexerErrors \<noteq> [] \<longrightarrow>
            compile n g x source options = Some (no_result\<lparr>r_errors := lexerErrors\<rparr>)) \<and>
         (lexerErrors = [] \<and> parse n toks = Some (ast, parserErrors) \<and>
          (parserErrors \<noteq> [] \<or> ast = None) \<longrightarrow>
            compile n g x source options = Some (no_result\<lparr>r_errors := parserErrors\<rparr>)) \<and>
         (lexerErrors = [] \<and> parse n toks = Some (Some p, []) \<and> strict options \<and>
          fst (analyze p) \<noteq> [] \<longrightarrow>
            (\<exists>r. compile n g x source options = Some r \<and> code r = [] \<and>
                 r_errors r = fst (analyze p))) \<and>
         (lexerErrors = [] \<and> parse n toks = Some (Some p, []) \<longrightarrow>
            image_errors (fst (analyze p)) = map image_error (program_images p) \<and>
            (strict options \<and> program_images p \<noteq> [] \<longrightarrow>
               (\<exists>r. compile n g x source options = Some r \<and> code r = [] \<and>
                    r_errors r = fst (analyze p) \<and> r_errors r \<noteq> [])) \<and>
            ((\<forall>c \<in> set (components p). distinct_names c) \<longrightarrow>
               fst (analyze p) = map image_error (program_images p)))"
proof (intro conjI impI)
  assume "lexerErrors \<noteq> []"
  with assms show "compile n g x source options = Some (no_result\<lparr>r_errors := lexerErrors\<rparr>)"
    by (simp add: compile_def no_result_def)
next
  assume "lexerErrors = [] \<and> parse n toks = Some (ast, parserErrors) \<and>
          (parserErrors \<noteq> [] \<or> ast = None)"
  with assms show "compile n g x source options = Some (no_result\<lparr>r_errors := parserErrors\<rparr>)"
    by (cases ast) (auto simp: compile_def no_result_def)
next
  assume a: "lexerErrors = [] \<and> parse n toks = Some (Some p, []) \<and> strict options \<and>
          fst (analyze p) \<noteq> []"
  obtain es ws where "analyze p = (es, ws)" by (cases "analyze p") auto
  with assms a show "\<exists>r. compile n g x source options = Some r \<and> code r = [] \<and>
                 r_errors r = fst (analyze p)"
    by (simp add: compile_def)
next
  assume a: "lexerErrors = [] \<and> parse n toks = Some (Some p, [])"
  then have t: "typed_program p" by (auto intro: parse_typed)
  show i: "image_errors (fst (analyze p)) = map image_error (program_images p)"
    using t by (rule analyze_images(1))
  show "\<forall>c \<in> set (components p). distinct_names c \<Longrightarrow>
      fst (analyze p) = map image_error (program_images p)"
    using t by (rule analyze_images(2))
  assume s: "strict options \<and> program_images p \<noteq> []"
  with i have ne: "fst (analyze p) \<noteq> []" by auto
  obtain es ws where "analyze p = (es, ws)" by (cases "analyze p") auto
  with assms a s ne show "\<exists>r. compile n g x source options = Some r \<and> code r = [] \<and>
                    r_errors r = fst (analyze p) \<and> r_errors r \<noteq> []"
    by (simp add: compile_def)
qed

text \<open>
  The witness: the source \<open>@\<close> (a lexer error), the source \<open>foo\<close> (a parser error and no
  syntax tree), a component whose body is an img element with a src and no alt, and a
  component with an img nested in two elements; in strict mode.
\<close>

theorem compile_no_code_on_errors_witness:
  "compile 1 no_code no_explanation ''@'' strict_options =
     Some (no_result\<lparr>r_errors := [\<lparr>message = ''Illegal character: @'', dline = 1, dcolumn = 1\<rparr>]\<rparr>) \<and>
   compile 2 no_code no_explanation ''foo'' strict_options =
     Some (no_result\<lparr>r_errors :=
       [\<lparr>message = ''Expected component, space or style declaration'', dline = 1, dcolumn = 1\<rparr>]\<rparr>) \<and>
   (\<exists>r. compile 12 no_code no_explanation img_source strict_options = Some r \<and> code r = [] \<and>
        r_errors r =
          [\<lparr>message = ''Image element must have alt attribute'', dline = 2, dcolumn = 3\<rparr>]) \<and>
   (\<exists>r. compile 14 no_code no_explanation nested_img_source strict_options = Some r \<and>
        code r = [] \<and>
        r_errors r =
          [\<lparr>message = ''Image element must have alt attribute'', dline = 4, dcolumn = 7\<rparr>])"
proof -
  have 1: "tokenize ''@'' = ([\<lparr>ttype = EOF, tvalue = [], tline = 1, tcolumn = 2\<rparr>],
      [\<lparr>message = ''Illegal character: @'', dline = 1, dcolumn = 1\<rparr>])"
    by code_simp
  obtain ti where ti: "tokenize img_source = (ti, [])" and pi: "parse 12 ti = Some (Some img_program, [])"
    using img_parse by (cases "tokenize img_source") auto
  obtain tn where tn: "tokenize nested_img_source = (tn, [])"
    and pn: "parse 14 tn = Some (Some nested_img_program, [])"
    using nested_img_parse by (cases "tokenize nested_img_source") auto
  have s: "strict strict_options" by (simp add: strict_options_def)
  have d: "\<forall>c \<in> set (components img_program). distinct_names c"
    "\<forall>c \<in> set (components nested_img_program). distinct_names c"
    using img_programs(2,4) by (simp_all add: list_all_iff)
  note A = compile_no_code_on_errors[OF 1, where n = 1 and g = no_code and x = no_explanation
        and options = strict_options]
  note B = compile_no_code_on_errors[OF foo_tokens, where n = 2 and g = no_code
        and x = no_explanation and options = strict_options and ast = None
        and parserErrors = "[\<lparr>message = ''Expected component, space or style declaration'',
                     dline = 1, dcolumn = 1\<rparr>]"]
  note C = compile_no_code_on_errors[OF ti, where n = 12 and g = no_code and x = no_explanation
        and options = strict_options and p = img_program and ast = "Some img_program"
        and parserErrors = "[]"]
  note D = compile_no_code_on_errors[OF tn, where n = 14 and g = no_code and x = no_explanation
        and options = strict_options and p = nested_img_program
        and ast = "Some nested_img_program" and parserErrors = "[]"]
  from A have a: "compile 1 no_code no_explanation ''@'' strict_options =
     Some (no_result\<lparr>r_errors := [\<lparr>message = ''Illegal character: @'', dline = 1, dcolumn = 1\<rparr>]\<rparr>)"
    by simp
  from B foo_parse have b: "compile 2 no_code no_explanation ''foo'' strict_options =
     Some (no_result\<lparr>r_errors :=
       [\<lparr>message = ''Expected component, space or style declaration'', dline = 1, dcolumn = 1\<rparr>]\<rparr>)"
    by simp
  from C pi s d(1) img_programs(1)
  have c: "\<exists>r. compile 12 no_code no_explanation img_source strict_options = Some r \<and> code r = [] \<and>
        r_errors r = map image_error [(2, 3)]"
    by (auto simp del: map_eq_conv)
  from D pn s d(2) img_programs(3)
  have d': "\<exists>r. compile 14 no_code no_explanation nested_img_source strict_options = Some r \<and>
        code r = [] \<and> r_errors r = map image_error [(4, 7)]"
    by (auto simp del: map_eq_conv)
  from a b c d' show ?thesis by (simp add: image_error_def)
qed

definition parsed_expression :: "nat \<Rightarrow> string \<Rightarrow> (Expression \<times> diag list \<times> bool) option" where
  "parsed_expression n source =
     map_option (\<lambda>(e, st). (e, errors st, isAtEnd st))
       (parseExpression n (new_Parser (fst (tokenize source))))"

text \<open>
  C5. Precedence and associativity of the expression parser, on the tokens of the source
  text: \<open>1 + 2 * 3\<close> parses to the sum of 1 and the product of 2 and 3; \<open>1 - 2 - 3\<close>
  parses to the difference of (1 - 2) and 3, binary operators associating to the left;
  \<open>a ? b : c ? d : e\<close> parses to a conditional whose alternate is the second
  conditional. Each time the parser reports no error and stops at the end of the input.
\<close>

theorem expression_precedence:
  "parsed_expression 12 ''1 + 2 * 3'' =
     Some (BinaryExpression ''+'' (Literal (NumberValue ''1'') ''1'' 1 1)
             (BinaryExpression ''*'' (Literal (NumberValue ''2'') ''2'' 1 5)
                (Literal (NumberValue ''3'') ''3'' 1 9) 1 7) 1 3, [], True) \<and>
   parsed_expression 12 ''1 - 2 - 3'' =
     Some (BinaryExpression ''-''
             (BinaryExpression ''-'' (Literal (NumberValue ''1'') ''1'' 1 1)
                (Literal (NumberValue ''2'') ''2'' 1 5) 1 3)
             (Literal (NumberValue ''3'') ''3'' 1 9) 1 7, [], True) \<and>
   parsed_expression 12 ''a ? b : c ? d : e'' =
     Some (ConditionalExpression (Identifier ''a'' 1 1) (Identifier ''b'' 1 5)
             (ConditionalExpression (Identifier ''c'' 1 9) (Identifier ''d'' 1 13)
                (Identifier ''e'' 1 17) 1 11) 1 3, [], True)"
  by code_simp

definition bad_indent :: string where
  "bad_indent = ''a:\<newline>    b\<newline>  c''"

text \<open>
  C6. For every source, the scan consumes the whole input, and the tokens returned are
  those of the scan, then one DEDENT for every indentation level still open (every stack
  entry but the bottom one), then EOF, which occurs nowhere before. If the scan reaches,
  after \<open>k\<close> steps, a state whose next character is a line break followed by a line
  indented less than the top of the stack and to a width that is not the top of the stack
  once the wider entries are popped, then tokenize returns at least one
  "inconsistent indentation" error.
\<close>

theorem inconsistent_indentation_recorded:
  "input (scan (new_Lexer source)) = [] \<and>
   fst (tokenize source) =
     lex_tokens (scan (new_Lexer source)) @
     replicate (length (indentStack (scan (new_Lexer source))) - 1)
       (dedent_token (scan (new_Lexer source))) @
     [eof_token (scan (new_Lexer source))] \<and>
   EOF \<notin> ttype ` set (lex_tokens (scan (new_Lexer source))) \<and>
   (scan_state k (new_Lexer source) = Some st \<and> inconsistent_dedent st \<longrightarrow>
      (\<exists>d \<in> set (snd (tokenize source)). indentation_error d))"
proof -
  have "\<exists>d \<in> set (snd (tokenize source)). indentation_error d"
    if a: "scan_state k (new_Lexer source) = Some st" "inconsistent_dedent st"
  proof -
    have "\<exists>d \<in> set (lex_errors (scan st)). indentation_error d"
      using a(2) by (rule scan_records)
    then show ?thesis
      using scan_state_scan[OF a(1)] by (simp add: tokenize_shape)
  qed
  moreover have "input (scan (new_Lexer source)) = []"
    by (rule scan_consumes_all)
  moreover have "grows (new_Lexer source) (scan (new_Lexer source))"
    by (rule scan_grows) simp
  then have "EOF \<notin> ttype ` set (lex_tokens (scan (new_Lexer source)))"
    by (auto simp: grows_def new_Lexer_def)
  ultimately show ?thesis by (simp add: tokenize_shape)
qed

text \<open>
  The witness: a line indented by 4 followed by a line indented by 2. After four steps
  the scan stands before the second line break with the stack 4, 0; the width 2 is below
  4 and is not 0. One error is recorded, the scan goes on, and the last token is EOF.
\<close>

theorem inconsistent_indentation_recorded_witness:
  "(\<exists>st. scan_state 4 (new_Lexer bad_indent) = Some st \<and> inconsistent_dedent st) \<and>
   tokenize bad_indent =
     ([\<lparr>ttype = IDENTIFIER, tvalue = ''a'', tline = 1, tcolumn = 1\<rparr>,
       \<lparr>ttype = COLON, tvalue = '':'', tline = 1, tcolumn = 2\<rparr>,
       \<lparr>ttype = NEWLINE, tvalue = ''\<newline>'', tline = 1, tcolumn = 3\<rparr>,
       \<lparr>ttype = INDENT, tvalue = [], tline = 2, tcolumn = 5\<rparr>,
       \<lparr>ttype = IDENTIFIER, tvalue = ''b'', tline = 2, tcolumn = 5\<rparr>,
       \<lparr>ttype = NEWLINE, tvalue = ''\<newline>'', tline = 2, tcolumn = 6\<rparr>,
       \<lparr>ttype = DEDENT, tvalue = [], tline = 3, tcolumn = 3\<rparr>,
       \<lparr>ttype = IDENTIFIER, tvalue = ''c'', tline = 3, tcolumn = 3\<rparr>,
       \<lparr>ttype = EOF, tvalue = [], tline = 3, tcolumn = 4\<rparr>],
      [\<lparr>message = ''Indentation error: inconsistent indentation'', dline = 3, dcolumn = 3\<rparr>]) \<and>
   (\<exists>d \<in> set (snd (tokenize bad_indent)). indentation_error d) \<and>
   input (scan (new_Lexer bad_indent)) = []"
proof -
  let ?st = "\<lparr>input = ''\<newline>  c'', line = 2, column = 6, indentStack = [4, 0],
      lex_tokens = [\<lparr>ttype = IDENTIFIER, tvalue = ''a'', tline = 1, tcolumn = 1\<rparr>,
        \<lparr>ttype = COLON, tvalue = '':'', tline = 1, tcolumn = 2\<rparr>,
        \<lparr>ttype = NEWLINE, tvalue = ''\<newline>'', tline = 1, tcolumn = 3\<rparr>,
        \<lparr>ttype = INDENT, tvalue = [], tline = 2, tcolumn = 5\<rparr>,
        \<lparr>ttype = IDENTIFIER, tvalue = ''b'', tline = 2, tcolumn = 5\<rparr>],
      lex_errors = []\<rparr>"
  have 1: "scan_state 4 (new_Lexer bad_indent) = Some ?st" by code_simp
  have 2: "inconsistent_dedent ?st" by code_simp
  have 3: "tokenize bad_indent =
     ([\<lparr>ttype = IDENTIFIER, tvalue = ''a'', tline = 1, tcolumn = 1\<rparr>,
       \<lparr>ttype = COLON, tvalue = '':'', tline = 1, tcolumn = 2\<rparr>,
       \<lparr>ttype = NEWLINE, tvalue = ''\<newline>'', tline = 1, tcolumn = 3\<rparr>,
       \<lparr>ttype = INDENT, tvalue = [], tline = 2, tcolumn = 5\<rparr>,
       \<lparr>ttype = IDENTIFIER, tvalue = ''b'', tline = 2, tcolumn = 5\<rparr>,
       \<lparr>ttype = NEWLINE, tvalue = ''\<newline>'', tline = 2, tcolumn = 6\<rparr>,
       \<lparr>ttype = DEDENT, tvalue = [], tline = 3, tcolumn = 3\<rparr>,
       \<lparr>ttype = IDENTIFIER, tvalue = ''c'', tline = 3, tcolumn = 3\<rparr>,
       \<lparr>ttype = EOF, tvalue = [], tline = 3, tcolumn = 4\<rparr>],
      [\<lparr>message = ''Indentation error: inconsistent indentation'', dline = 3, dcolumn = 3\<rparr>])"
    by code_simp
  from inconsistent_indentation_recorded[of bad_indent 4 ?st] 1 2 3 show ?thesis by blast
qed

definition declarations :: "Program \<Rightarrow> nat" where
  "declarations p = length (components p) + length (spaces p) + length (styles p)"

definition keyword_count :: "token list \<Rightarrow> nat" where
  "keyword_count toks =
     count_type COMPONENT toks + count_type SPACE toks + count_type STYLE toks"

definition declaration_counts :: "nat \<Rightarrow> string \<Rightarrow> ((nat \<times> nat \<times> nat) option \<times> diag list) option" where
  "declaration_counts n source =
     map_option (\<lambda>(ast, errs).
         (map_option (\<lambda>p. (length (components p), length (spaces p), length (styles p))) ast, errs))
       (parse n (fst (tokenize source)))"

definition nested_style_source :: string where
  "nested_style_source =
     ''component C:\<newline>  style:\<newline>    .a:\<newline>      color: \"red\"\<newline>''"

definition swallowed_style_source :: string where
  "swallowed_style_source =
     ''space S:\<newline>  state n = 0\<newline>style:\<newline>  .a:\<newline>    color: \"red\"\<newline>component C:\<newline>  p: \"x\"\<newline>''"

definition style_first_source :: string where
  "style_first_source =
     ''style:\<newline>  .a:\<newline>    color: \"red\"\<newline>space S:\<newline>  state n = 0\<newline>component C:\<newline>  p: \"x\"\<newline>''"

text \<open>
  What holds of every source: whenever parse returns a program, the program has as many
  components as the source has component keywords, at most as many spaces as it has space
  keywords and at most as many top-level style blocks as it has style keywords. A style
  keyword inside a component opens a style block of that component, not a top-level
  declaration.
\<close>

lemma declarations_bounded_by_keywords:
  assumes "tokenize source = (toks, errs)" "parse n toks = Some (Some p, perrs)"
  shows "length (components p) = count_type COMPONENT toks \<and>
         length (spaces p) \<le> count_type SPACE toks \<and>
         length (styles p) \<le> count_type STYLE toks \<and>
         declarations p \<le> keyword_count toks"
proof -
  from parse_result[OF assms(2)] obtain q st where
    q: "Some p = (if components q \<noteq> [] then Some q else None)"
    and c: "length (components q) =
       count_type COMPONENT (takeWhile (\<lambda>t. ttype t \<noteq> EOF) (tokens (new_Parser toks)))"
       "length (spaces q) \<le>
       count_type SPACE (takeWhile (\<lambda>t. ttype t \<noteq> EOF) (tokens (new_Parser toks)))"
       "length (styles q) \<le>
       count_type STYLE (takeWhile (\<lambda>t. ttype t \<noteq> EOF) (tokens (new_Parser toks)))"
    by blast
  from q have "q = p" by (simp split: if_splits)
  with c show ?thesis
    by (simp add: lexed_before_EOF[OF assms(1)] structural_def declarations_def
        keyword_count_def)
qed

lemma nested_style_not_top_level:
  "snd (tokenize nested_style_source) = [] \<and>
   map_option (\<lambda>(ast, errs). (map_option declarations ast, errs))
     (parse 12 (fst (tokenize nested_style_source))) = Some (Some 1, []) \<and>
   keyword_count (fst (tokenize nested_style_source)) = 2"
  by code_simp

text \<open>
  C7. The number of top-level declarations is not the number of keywords on a source of
  three well-formed top-level declarations, a space, a style block and a component in
  this order: it lexes and parses without any error and holds three keywords, and the
  program has one component, one space and no style block. The statement loop of
  parseSpace stops at a component or space keyword only, so it passes over the style
  keyword and the tokens of the block one by one. With the same declarations in the
  order style block, space, component, the program has all three.
\<close>

theorem style_after_space_swallowed:
  "snd (tokenize swallowed_style_source) = [] \<and>
   keyword_count (fst (tokenize swallowed_style_source)) = 3 \<and>
   declaration_counts 20 swallowed_style_source = Some (Some (1, 1, 0), []) \<and>
   snd (tokenize style_first_source) = [] \<and>
   keyword_count (fst (tokenize style_first_source)) = 3 \<and>
   declaration_counts 20 style_first_source = Some (Some (1, 1, 1), [])"
  by code_simp

definition quoted_source :: string where
  "quoted_source = ''component C:\<newline>  p: \"a b\"\<newline>''"

text \<open>
  C8. format is not idempotent on valid input. The component with the element
  \<open>p: "a b"\<close> lexes and parses without any error. format writes the string token by its
  value, without the quotes: \<open>p: a b\<close>. Formatting that text again reads \<open>a\<close> and \<open>b\<close> as
  two elements nested in \<open>p\<close> and writes each on a line of its own, so the second result
  differs from the first.
\<close>

theorem format_not_idempotent:
  "snd (tokenize quoted_source) = [] \<and>
   map_option snd (parse 12 (fst (tokenize quoted_source))) = Some [] \<and>
   format 20 quoted_source = Returned ''component C:\<newline>  p: a b\<newline>'' \<and>
   format 20 ''component C:\<newline>  p: a b\<newline>'' =
     Returned ''component C:\<newline>  p:\<newline>    a\<newline>    b\<newline>''"
  by code_simp

definition stores_only :: string where
  "stores_only =
     ''space S:\<newline>  state n = 0\<newline>style:\<newline>  .a:\<newline>    color: \"red\"\<newline>''"

text \<open>
  C9, as the claim has it, fails on the source \<open>foo\<close>: it holds no component declaration,
  parse returns no program, and compile returns empty code with a list of errors that is
  not empty (the parser's "Expected component, space or style declaration").
\<close>

theorem compile_without_component_reports:
  "count_type COMPONENT (fst (tokenize ''foo'')) = 0 \<and>
   (\<forall>g x options. compile 2 g x ''foo'' options =
      Some (no_result\<lparr>r_errors :=
        [\<lparr>message = ''Expected component, space or style declaration'',
          dline = 1, dcolumn = 1\<rparr>]\<rparr>))"
  using foo_tokens foo_parse by (simp add: compile_def no_result_def count_type_def)

text \<open>
  C9, amended. Whenever parse returns for the tokens of a source, it returns no program
  exactly when the source holds no component keyword; and compile of a source without a
  component keyword returns empty code, no syntax tree, and as errors those of the lexer
  if there are any, else those of the parser: an empty list exactly when neither stage
  reported anything.
\<close>

theorem no_component_no_program:
  assumes "tokenize source = (toks, lexerErrors)" "parse n toks = Some (ast, parserErrors)"
  shows "(ast = None \<longleftrightarrow> count_type COMPONENT toks = 0) \<and>
         (count_type COMPONENT toks = 0 \<longrightarrow>
            compile n g x source options =
              Some (no_result\<lparr>r_errors :=
                (if lexerErrors \<noteq> [] then lexerErrors else parserErrors)\<rparr>))"
proof -
  from parse_result[OF assms(2)] obtain q st where
    q: "ast = (if components q \<noteq> [] then Some q else None)"
    and c: "length (components q) =
       count_type COMPONENT (takeWhile (\<lambda>t. ttype t \<noteq> EOF) (tokens (new_Parser toks)))"
    by blast
  have "length (components q) = count_type COMPONENT toks"
    using c by (simp add: lexed_before_EOF[OF assms(1)] structural_def)
  with q have 1: "ast = None \<longleftrightarrow> count_type COMPONENT toks = 0"
    by (cases "components q") auto
  show ?thesis
    using 1 assms by (auto simp: compile_def no_result_def)
qed

text \<open>
  The witness: a space declaration followed by a style block, both well formed. parse
  returns no program and no error, and compile returns empty code and no error.
\<close>

theorem no_component_no_program_witness:
  "(\<exists>toks. tokenize stores_only = (toks, []) \<and> parse 12 toks = Some (None, []) \<and>
      count_type COMPONENT toks = 0) \<and>
   compile 12 no_code no_explanation stores_only strict_options = Some no_result"
proof -
  have "snd (tokenize stores_only) = [] \<and>
        parse 12 (fst (tokenize stores_only)) = Some (None, [])" by code_simp
  then obtain toks where t: "tokenize stores_only = (toks, [])"
    and p: "parse 12 toks = Some (None, [])"
    by (cases "tokenize stores_only") auto
  from no_component_no_program[OF t p, where g = no_code and x = no_explanation
      and options = strict_options] t p
  show ?thesis by (auto simp: no_result_def)
qed

text \<open>
  C10. createComputed(fn) calls fn once, during the creation, and stores what it returned
  in the backing signal. The closure \<open>fn\<close> is \<open>() => { body; return result }\<close>, for any
  commands \<open>body\<close> and any expression \<open>result\<close>.

  For a closure that only returns the value of an expression (no commands), from every
  state and with fuel 6 or more, the creation returns, peek of the new computed is the
  value of the expression over the signal values of the moment of creation (the new
  backing signal itself holding its placeholder \<open>undefined\<close>), and the closure of the
  computed's effect has been called exactly once. The placeholder is read back only
  where it is the value of the expression.

  For every closure: whenever the creation returns, the closure of the computed's effect
  has been called exactly once more than before. If the backing signal is named by no
  closure, then whenever the creation returns, \<open>body\<close> has returned from the state in
  which the effect called it and peek of the computed is the value of \<open>result\<close> over the
  signal values that \<open>body\<close> left; and whenever \<open>body\<close> returns from that state, the
  creation returns, with that value. Calling the computed reads the backing signal with
  tracking, and gives the value that peek gives.
\<close>

theorem createComputed_runs_fn_once:
  "(\<exists>st'. createComputed (n + 6) [] f st = Some (nextSignal st, st') \<and>
      SignalNode_peek (nextSignal st) st' =
        expr_value f ((signal_values st)(nextSignal st := Undefined)) \<and>
      invocations st' = invocations st @ [nextEffect st]) \<and>
   fst (SignalNode_get sg st') = SignalNode_peek sg st' \<and>
   (createComputed k body f st = Some (sg, st') \<longrightarrow>
      sg = nextSignal st \<and>
      count_list (invocations st') (nextEffect st) =
        Suc (count_list (invocations st) (nextEffect st))) \<and>
   (well_scoped body f st \<and> createComputed k body f st = Some (sg, st') \<longrightarrow>
      (\<exists>s1. run k (Exec body) (computed_entered body f st) = Some s1 \<and>
         SignalNode_peek sg st' = expr_value f (signal_values s1))) \<and>
   (well_scoped body f st \<and> run m (Exec body) (computed_entered body f st) = Some s2 \<longrightarrow>
      (\<exists>st'. createComputed (m + 6) body f st = Some (nextSignal st, st') \<and>
         SignalNode_peek (nextSignal st) st' = expr_value f (signal_values s2)))"
  using createComputed_pure[of n f st] createComputed_called_once[of k body f st sg st']
    createComputed_value[of body f st k sg st'] createComputed_returns[of body f st m s2]
    get_is_peek[of sg st']
  by blast

text \<open>
  The witness: a signal \<open>s\<close> that an effect reads, and
  \<open>fn = () => { batch(() => s.set(5)); return s() + 1 }\<close>. The creation returns, the
  computed holds 6, and its closure has been called once.
\<close>

theorem createComputed_runs_fn_once_witness:
  "\<exists>st st'. watched_signal = Some st \<and>
     well_scoped batched_writer (Add (Get 0) (Const (Num 1))) st \<and>
     createComputed 15 batched_writer (Add (Get 0) (Const (Num 1))) st = Some (1, st') \<and>
     SignalNode_peek 1 st' = Num 6 \<and>
     count_list (invocations st) 1 = 0 \<and> count_list (invocations st') 1 = 1"
proof -
  let ?f = "Add (Get 0) (Const (Num 1))"
  from watched_signal_state obtain st s1 where st: "watched_signal = Some st" "nextSignal st = 1"
    "nextEffect st = 1" "invocations st = [0]" "well_scoped batched_writer ?f st"
    and s1: "run 9 (Exec batched_writer) (computed_entered batched_writer ?f st) = Some s1"
      "signal_values s1 0 = Num 5"
    by blast
  note T = createComputed_runs_fn_once[where body = batched_writer and f = ?f and st = st
      and m = 9 and ?s2.0 = s1 and k = "9 + 6" and sg = 1]
  from T st(5) s1(1) obtain st' where
    c: "createComputed (9 + 6) batched_writer ?f st = Some (nextSignal st, st')"
    and p: "SignalNode_peek (nextSignal st) st' = expr_value ?f (signal_values s1)"
    by blast
  from T[where st' = st'] c st(2)
  have "count_list (invocations st') (nextEffect st) = Suc (count_list (invocations st) (nextEffect st))"
    by simp
  with c p st s1(2) show ?thesis by auto
qed

end
